theory Spec2Isabelle
  imports Main "HOL-Library.AList" "HOL-Library.Product_Lexorder"
begin

text \<open>
  The correlation of open descriptors into connections between processes (function
  \<open>connections\<close> of pkg/connection.go) and the assembly of the node graph (function
  \<open>Nodegraph\<close> of the plugin package), as functions over explicit maps. The order in which
  Go ranges over a map is a parameter, a panic is a value, and so is a loop that does not
  come to an end.
\<close>

section \<open>Data model of the correlation pass (pkg/connection.go)\<close>

text \<open>
  Process ids and descriptor numbers are Go \<open>int\<close>s; no arithmetic is done on them in the
  correlation pass, so they are modelled as unbounded integers.
\<close>

type_synonym Pid = int

definition MaxInt32 :: int where
  "MaxInt32 = 2147483647"

text \<open>The parsed descriptor record (\<open>Connection\<close> of connection_unix.go).\<close>

record Connection =
  Descriptor :: int
  Type :: string
  Name :: string
  Self :: string
  Peer :: string

text \<open>
  The fields of a process entry that \<open>connections\<close> reads. The table is a Go
  \<open>map[Pid]*process\<close>: a key may be absent, or present with a nil pointer
  (\<open>Some None\<close>).
\<close>

record process =
  Ppid :: Pid
  Exec :: string
  Connections :: "Connection list"

type_synonym processTable = "Pid \<rightharpoonup> process option"

text \<open>The output records. Field names carry a prefix, the source's names being used for locals.\<close>

record endpoint =
  ep_pid :: Pid
  ep_fd :: int
  ep_command :: string
  ep_name :: string

record connection =
  c_ftype :: string
  c_name :: string
  c_self :: endpoint
  c_peer :: endpoint

text \<open>Go's zero values, returned by a map lookup that misses.\<close>

definition zero_endpoint :: endpoint where
  "zero_endpoint = \<lparr>ep_pid = 0, ep_fd = 0, ep_command = [], ep_name = []\<rparr>"

definition zero_connection :: connection where
  "zero_connection = \<lparr>c_ftype = [], c_name = [], c_self = zero_endpoint, c_peer = zero_endpoint\<rparr>"

datatype fault = NilDereference | IndexOutOfRange

type_synonym key4 = "int \<times> int \<times> int \<times> int"
type_synonym connmap = "(key4 \<times> connection) list"
type_synonym epmap = "(string \<times> (Pid \<times> nat list) list) list"

section \<open>Library functions the pass calls\<close>

text \<open>
  \<open>strconv.Itoa\<close>: decimal rendering of an integer.
\<close>

fun digits :: "nat \<Rightarrow> string" where
  "digits n = (if n < 10 then [''0123456789'' ! n]
               else digits (n div 10) @ [''0123456789'' ! (n mod 10)])"

declare digits.simps [simp del]

definition Itoa :: "int \<Rightarrow> string" where
  "Itoa i = (if i < 0 then CHR ''-'' # digits (nat (- i)) else digits (nat i))"

text \<open>
  The host's network environment and the functions of Go's \<open>net\<close> package are parameters.
  \<open>SplitHostPort\<close> gives \<open>None\<close> where Go returns an error (host and port are then both
  empty). \<open>ParseIP\<close> gives \<open>None\<close> where Go returns a nil address, and otherwise the
  address in its canonical text form, as \<open>ip.String()\<close> prints it. The four classification
  methods are read on that text form. \<open>localIps\<close> and \<open>interfaces\<close> are the two package
  variables of connection.go.
\<close>

record netenv =
  SplitHostPort :: "string \<Rightarrow> (string \<times> string) option"
  ParseIP :: "string \<Rightarrow> string option"
  localIps :: "string set"
  interfaces :: "string \<rightharpoonup> string"
  IsLoopback :: "string \<Rightarrow> bool"
  IsInterfaceLocalMulticast :: "string \<Rightarrow> bool"
  IsLinkLocalMulticast :: "string \<Rightarrow> bool"
  IsLinkLocalUnicast :: "string \<Rightarrow> bool"

text \<open>\<open>ip.String()\<close>: a nil address prints as \<open><nil>\<close>.\<close>

definition IPString :: "string option \<Rightarrow> string" where
  "IPString ip = (case ip of None \<Rightarrow> ''<nil>'' | Some s \<Rightarrow> s)"

text \<open>A classification method of a nil address is false.\<close>

definition ipIs :: "(string \<Rightarrow> bool) \<Rightarrow> string option \<Rightarrow> bool" where
  "ipIs P ip = (case ip of None \<Rightarrow> False | Some s \<Rightarrow> P s)"

section \<open>Maps and loops\<close>

text \<open>
  A Go map that is enumerated is an association list with distinct keys; an assignment
  \<open>m[k] = v\<close> is \<open>AList.update\<close>. A loop whose body may panic is a fold that stops
  at the first fault.
\<close>

fun foldE :: "('a \<Rightarrow> 's \<Rightarrow> fault + 's) \<Rightarrow> 'a list \<Rightarrow> 's \<Rightarrow> fault + 's" where
  "foldE f [] s = Inr s"
| "foldE f (x # xs) s = (case f x s of Inl e \<Rightarrow> Inl e | Inr s' \<Rightarrow> foldE f xs s')"

definition has_key :: "('k \<times> 'v) list \<Rightarrow> 'k \<Rightarrow> bool" where
  "has_key m k = (map_of m k \<noteq> None)"

definition lookup_conn :: "connmap \<Rightarrow> key4 \<Rightarrow> connection" where
  "lookup_conn connm k = (case map_of connm k of None \<Rightarrow> zero_connection | Some c \<Rightarrow> c)"

section \<open>The endpoint index (first loop of \<open>connections\<close>)\<close>

definition is_transport :: "string \<Rightarrow> bool" where
  "is_transport t = (t = ''FIFO'' \<or> t = ''PIPE'' \<or> t = ''TCP'' \<or> t = ''UDP'' \<or> t = ''unix'')"

definition epm_key :: "string \<Rightarrow> string \<Rightarrow> string" where
  "epm_key t s = t @ '': '' @ s"

text \<open>\<open>epm[key]\<close> and \<open>epm[key][pid]\<close>: a missing key reads as the empty map, the nil slice.\<close>

definition epm_get :: "epmap \<Rightarrow> string \<Rightarrow> (Pid \<times> nat list) list" where
  "epm_get epm key = (case map_of epm key of None \<Rightarrow> [] | Some m \<Rightarrow> m)"

definition epm_ix :: "epmap \<Rightarrow> string \<Rightarrow> Pid \<Rightarrow> nat list" where
  "epm_ix epm key pid = (case map_of (epm_get epm key) pid of None \<Rightarrow> [] | Some ix \<Rightarrow> ix)"

definition epm_add :: "Pid \<Rightarrow> nat \<times> Connection \<Rightarrow> epmap \<Rightarrow> epmap" where
  "epm_add pid ic epm =
     (let i = fst ic; conn = snd ic in
      if Self conn = [] then epm
      else if is_transport (Type conn) then
        (let self = epm_key (Type conn) (Self conn) in
         AList.update self (AList.update pid (epm_ix epm self pid @ [i]) (epm_get epm self)) epm)
      else epm)"

definition epm_proc :: "processTable \<Rightarrow> Pid \<Rightarrow> epmap \<Rightarrow> fault + epmap" where
  "epm_proc pt pid epm =
     (case pt pid of
        Some (Some p) \<Rightarrow> Inr (fold (epm_add pid) (enumerate 0 (Connections p)) epm)
      | _ \<Rightarrow> Inl NilDereference)"

definition build_epm :: "Pid list \<Rightarrow> processTable \<Rightarrow> fault + epmap" where
  "build_epm ord pt = foldE (epm_proc pt) ord []"

section \<open>The correlation loop (second loop of \<open>connections\<close>)\<close>

definition parent_connection :: "Pid \<Rightarrow> process \<Rightarrow> Pid \<Rightarrow> process \<Rightarrow> connection" where
  "parent_connection ppid pp pid p =
     \<lparr>c_ftype = ''parent:'' @ Itoa ppid,
      c_name = ''child:'' @ Itoa pid,
      c_self = \<lparr>ep_pid = ppid, ep_fd = - 1, ep_command = Exec pp, ep_name = ''parent''\<rparr>,
      c_peer = \<lparr>ep_pid = pid, ep_fd = - 1, ep_command = Exec p, ep_name = ''child''\<rparr>\<rparr>"

text \<open>The reciprocal condition of the candidate loop (the negated guard of its \<open>continue\<close>).\<close>

definition reciprocal :: "Connection \<Rightarrow> Connection \<Rightarrow> bool" where
  "reciprocal conn rconn =
     (Type conn = Type rconn \<and> Peer conn = Self rconn \<and>
      (Peer rconn = Self conn \<or>
       Peer rconn = [] \<and> (Type conn = ''PSXSHM'' \<or> Type conn = ''unix'')))"

text \<open>Body of \<open>for _, i := range ix\<close>.\<close>

definition cand_step ::
  "processTable \<Rightarrow> Pid \<Rightarrow> Connection \<Rightarrow> endpoint \<Rightarrow> Pid \<Rightarrow> nat \<Rightarrow> connmap \<Rightarrow> fault + connmap" where
  "cand_step pt pid conn self rpid i connm =
     (case pt rpid of
        Some (Some rp) \<Rightarrow>
          if i < length (Connections rp) then
            (let rconn = Connections rp ! i in
             if \<not> reciprocal conn rconn then Inr connm
             else
               (let fd = Descriptor conn; rfd = Descriptor rconn in
                if has_key connm (pid, fd, rpid, rfd) then Inr connm
                else if has_key connm (rpid, rfd, pid, fd) then Inr connm
                else
                  (let s = self;
                       r = \<lparr>ep_pid = rpid, ep_fd = rfd, ep_command = Exec rp, ep_name = Peer conn\<rparr>
                   in Inr (AList.update (ep_pid s, ep_fd s, ep_pid r, ep_fd r)
                             \<lparr>c_ftype = Type conn, c_name = Name conn, c_self = s, c_peer = r\<rparr>
                             connm))))
          else Inl IndexOutOfRange
      | _ \<Rightarrow> Inl NilDereference)"

text \<open>Body of \<open>for _, rpid := range rpids\<close>.\<close>

definition rpid_step ::
  "processTable \<Rightarrow> epmap \<Rightarrow> string \<Rightarrow> Pid \<Rightarrow> Connection \<Rightarrow> endpoint \<Rightarrow> Pid \<Rightarrow> connmap
     \<Rightarrow> fault + connmap" where
  "rpid_step pt epm key pid conn self rpid connm =
     (if pid = rpid then Inr connm
      else foldE (cand_step pt pid conn self rpid) (epm_ix epm key rpid) connm)"

text \<open>The candidate process ids at a key, sorted ascending.\<close>

definition rpids_of :: "epmap \<Rightarrow> string \<Rightarrow> Pid list" where
  "rpids_of epm key = sort (map fst (epm_get epm key))"

text \<open>The guard of the external-host branch.\<close>

definition is_local :: "netenv \<Rightarrow> string option \<Rightarrow> bool" where
  "is_local env ip =
     (IPString ip \<in> localIps env \<or> IPString ip \<in> dom (interfaces env) \<or>
      ipIs (IsLoopback env) ip \<or> ipIs (IsInterfaceLocalMulticast env) ip \<or>
      ipIs (IsLinkLocalMulticast env) ip \<or> ipIs (IsLinkLocalUnicast env) ip)"

text \<open>Body of \<open>for _, conn := range p.Connections\<close>.\<close>

definition conn_step ::
  "netenv \<Rightarrow> processTable \<Rightarrow> epmap \<Rightarrow> Pid \<Rightarrow> process \<Rightarrow> Connection \<Rightarrow> connmap
     \<Rightarrow> fault + connmap" where
  "conn_step env pt epm pid p conn connm =
     (let fd = Descriptor conn;
          self = \<lparr>ep_pid = pid, ep_fd = fd, ep_command = Exec p, ep_name = Self conn\<rparr>
      in
      if Type conn = ''NUL'' then Inr connm
      else if Type conn = ''REG'' \<or> Type conn = ''PSXSHM'' then
        Inr (AList.update (pid, fd, MaxInt32, 0)
               \<lparr>c_ftype = Type conn, c_name = Name conn, c_self = self,
                c_peer = \<lparr>ep_pid = MaxInt32, ep_fd = 0, ep_command = [], ep_name = Name conn\<rparr>\<rparr>
               connm)
      else if Type conn = ''systm'' then
        Inr (AList.update (pid, fd, 0, 0)
               \<lparr>c_ftype = Type conn, c_name = Name conn, c_self = self,
                c_peer = \<lparr>ep_pid = 0, ep_fd = 0, ep_command = Peer conn, ep_name = Name conn\<rparr>\<rparr>
               connm)
      else if is_transport (Type conn) then
        (if Peer conn = [] then Inr connm
         else if \<not> has_key epm (epm_key (Type conn) (Peer conn)) then
           (if Type conn = ''TCP'' \<or> Type conn = ''UDP'' then
              (let hp = (case SplitHostPort env (Peer conn) of
                           None \<Rightarrow> ([], []) | Some x \<Rightarrow> x);
                   host = fst hp; port = snd hp;
                   ip = ParseIP env host
               in
               if \<not> is_local env ip then
                 Inr (AList.update (- 1, - 1, pid, fd)
                        \<lparr>c_ftype = Type conn, c_name = Name conn,
                         c_self = \<lparr>ep_pid = - 1, ep_fd = - 1, ep_command = port,
                                   ep_name = Peer conn\<rparr>,
                         c_peer = self\<rparr>
                        connm)
               else Inr connm)
            else Inr connm)
         else
           (let key = epm_key (Type conn) (Peer conn) in
            foldE (rpid_step pt epm key pid conn self) (rpids_of epm key) connm))
      else Inr connm)"

text \<open>Body of \<open>for pid, p := range pt\<close>.\<close>

definition proc_step ::
  "netenv \<Rightarrow> processTable \<Rightarrow> epmap \<Rightarrow> Pid \<Rightarrow> connmap \<Rightarrow> fault + connmap" where
  "proc_step env pt epm pid connm =
     (case pt pid of
        Some (Some p) \<Rightarrow>
          (let ppid = Ppid p in
           case pt ppid of
             Some (Some pp) \<Rightarrow>
               foldE (conn_step env pt epm pid p) (Connections p)
                 (AList.update (ppid, - 1, pid, - 1) (parent_connection ppid pp pid p) connm)
           | _ \<Rightarrow> Inl NilDereference)
      | _ \<Rightarrow> Inl NilDereference)"

section \<open>Ordering of the output\<close>

text \<open>The \<open>less\<close> function handed to \<open>sort.Slice\<close>.\<close>

fun key_less :: "key4 \<Rightarrow> key4 \<Rightarrow> bool" where
  "key_less (a0, a1, a2, a3) (b0, b1, b2, b3) =
     (a0 < b0 \<or>
      a0 = b0 \<and> (a2 < b2 \<or>
        a2 = b2 \<and> (a1 < b1 \<or>
          a1 = b1 \<and> a3 < b3)))"

fun insert_key :: "key4 \<Rightarrow> key4 list \<Rightarrow> key4 list" where
  "insert_key k [] = [k]"
| "insert_key k (x # xs) = (if key_less x k then x # insert_key k xs else k # x # xs)"

fun sort_keys :: "key4 list \<Rightarrow> key4 list" where
  "sort_keys [] = []"
| "sort_keys (k # ks) = insert_key k (sort_keys ks)"

section \<open>The pass\<close>

text \<open>
  \<open>ord1\<close> and \<open>ord2\<close> are the orders in which the two \<open>range pt\<close> loops visit the keys of
  the table. A panic is recovered by the deferred function and \<open>connections\<close> then returns
  the zero value of its result, the nil slice.
\<close>

definition correlate :: "netenv \<Rightarrow> Pid list \<Rightarrow> Pid list \<Rightarrow> processTable \<Rightarrow> fault + connmap" where
  "correlate env ord1 ord2 pt =
     (case build_epm ord1 pt of
        Inl e \<Rightarrow> Inl e
      | Inr epm \<Rightarrow> foldE (proc_step env pt epm) ord2 [])"

definition connections :: "netenv \<Rightarrow> Pid list \<Rightarrow> Pid list \<Rightarrow> processTable \<Rightarrow> connection list" where
  "connections env ord1 ord2 pt =
     (case correlate env ord1 ord2 pt of
        Inl e \<Rightarrow> []
      | Inr connm \<Rightarrow> map (lookup_conn connm) (sort_keys (map fst connm)))"

definition conn_key :: "connection \<Rightarrow> key4" where
  "conn_key c = (ep_pid (c_self c), ep_fd (c_self c), ep_pid (c_peer c), ep_fd (c_peer c))"

section \<open>Graph assembly (\<open>Nodegraph\<close> of the plugin package)\<close>

text \<open>
  \<open>Nodegraph\<close> works on the table of the \<open>process\<close> package, whose descriptors carry two
  endpoints, each a name with a process id that \<open>process.Connections\<close> has filled in.
  The names of that package's types and fields carry a prime here.
\<close>

record Endpoint' =
  Name' :: string
  Pid' :: Pid

record Connection' =
  Type' :: string
  Self' :: Endpoint'
  Peer' :: Endpoint'

record process' =
  IdName' :: string
  Executable' :: string
  Ppid' :: Pid
  Connections' :: "Connection' list"

type_synonym Table' = "Pid \<rightharpoonup> process' option"

text \<open>
  A node row and an edge row, without the time stamp that all rows of one call share. The
  columns are those of the \<open>[]any\<close> slices, in order; column 6 of an edge is its label.
\<close>

datatype arc = hostArc | procArc | dataArc | sockArc | kernArc

record node =
  n_id :: int
  n_col2 :: string
  n_col3 :: string
  n_col4 :: string
  n_col5 :: string
  n_arc :: arc

record edge =
  e_id :: string
  e_source :: int
  e_target :: int
  e_col4 :: string
  e_col5 :: string
  e_label :: string

type_synonym nodemap = "(Pid \<times> node) list"
type_synonym edgemap = "(string \<times> edge) list"

text \<open>
  Functions from outside the source at hand: \<open>gocore.Hostname\<close>,
  \<open>url.QueryEscape\<close>, \<open>strconv.Atoi\<close> (\<open>None\<close> for an error) and the \<open>String\<close> method
  of \<open>Pid\<close>, beside those of the \<open>net\<close> package. \<open>Flatten env tb pid\<close> stands for
  \<open>tr.FindTree(pid).Flatten(tb, o)\<close> with \<open>tr\<close> the tree that \<open>process.BuildTree\<close> makes of
  \<open>tb\<close>: the process ids of the tree below \<open>pid\<close>, as the \<open>process\<close> package lists them.
\<close>

record graphenv = netenv +
  Hostname :: "string \<Rightarrow> string"
  QueryEscape :: "string \<Rightarrow> string"
  Atoi :: "string \<Rightarrow> int option"
  PidString :: "Pid \<Rightarrow> string"
  Flatten :: "Table' \<Rightarrow> Pid \<Rightarrow> Pid list"

definition bindE :: "fault + 'a \<Rightarrow> ('a \<Rightarrow> fault + 'b) \<Rightarrow> fault + 'b" where
  "bindE r f = (case r of Inl e \<Rightarrow> Inl e | Inr x \<Rightarrow> f x)"

text \<open>\<open>fmt.Sprintf("%d -> %d", a, b)\<close>, the id of an edge.\<close>

definition edge_id :: "Pid \<Rightarrow> Pid \<Rightarrow> string" where
  "edge_id a b = Itoa a @ '' -> '' @ Itoa b"

text \<open>
  The arrow of the labels: a space, the non-breaking hyphen U+2011 in UTF-8, \<open>>\<close> and a
  space. \<open>transport t a b\<close> is \<open>fmt.Sprintf("%s:%s \<dots>> %s", t, a, b)\<close>.
\<close>

definition arrow :: string where
  "arrow = [CHR '' '', CHR 0xE2, CHR 0x80, CHR 0x91, CHR ''>'', CHR '' '']"

definition transport :: "string \<Rightarrow> string \<Rightarrow> string \<Rightarrow> string" where
  "transport t a b = t @ '':'' @ a @ arrow @ b"

definition longname :: "Table' \<Rightarrow> Pid \<Rightarrow> fault + string" where
  "longname tb pid =
     (case tb pid of
        None \<Rightarrow> Inr []
      | Some None \<Rightarrow> Inl NilDereference
      | Some (Some p) \<Rightarrow>
          Inr ((if Executable' p = [] then IdName' p else Executable' p)
                 @ ''['' @ Itoa pid @ '']''))"

definition shortname :: "Table' \<Rightarrow> Pid \<Rightarrow> fault + string" where
  "shortname tb pid =
     (case tb pid of
        None \<Rightarrow> Inr []
      | Some None \<Rightarrow> Inl NilDereference
      | Some (Some p) \<Rightarrow> Inr (IdName' p @ ''['' @ Itoa pid @ '']''))"

text \<open>The row of a process node: \<open>tb[pid].Id.Name\<close> panics when the entry is missing or nil.\<close>

definition process_node :: "graphenv \<Rightarrow> Table' \<Rightarrow> Pid \<Rightarrow> fault + node" where
  "process_node env tb pid =
     (case tb pid of
        Some (Some p) \<Rightarrow>
          bindE (longname tb pid) (\<lambda>ln.
          bindE (longname tb (Ppid' p)) (\<lambda>lp.
            Inr \<lparr>n_id = pid, n_col2 = IdName' p, n_col3 = PidString env pid, n_col4 = ln,
                 n_col5 = lp, n_arc = procArc\<rparr>))
      | _ \<Rightarrow> Inl NilDereference)"

text \<open>The three branches on the peer's process id.\<close>

definition host_branch ::
  "graphenv \<Rightarrow> Table' \<Rightarrow> Connection' \<Rightarrow> nodemap \<times> edgemap \<Rightarrow> fault + nodemap \<times> edgemap" where
  "host_branch env tb conn st =
     (let nm = fst st; em = snd st;
          hp = (case SplitHostPort env (Name' (Peer' conn)) of None \<Rightarrow> ([], []) | Some x \<Rightarrow> x);
          host = fst hp; port = snd hp
      in
      bindE (if Atoi env (Name' (Self' conn)) \<noteq> None then Inr sockArc
             else if length (Name' (Self' conn)) < 2 then Inl IndexOutOfRange
             else if take 2 (Name' (Self' conn)) = ''0x'' then Inr sockArc
             else Inr hostArc) (\<lambda>arc.
      bindE (shortname tb (Pid' (Self' conn))) (\<lambda>sn.
        (let eid = edge_id (Pid' (Peer' conn)) (Pid' (Self' conn)) in
         Inr (AList.update (Pid' (Peer' conn))
                \<lparr>n_id = Pid' (Peer' conn), n_col2 = Type' conn @ '':'' @ port,
                 n_col3 = Hostname env host, n_col4 = host, n_col5 = Hostname env host,
                 n_arc = arc\<rparr> nm,
              AList.update eid
                \<lparr>e_id = eid, e_source = Pid' (Peer' conn), e_target = Pid' (Self' conn),
                 e_col4 = host, e_col5 = sn,
                 e_label = transport (Type' conn) (Name' (Peer' conn)) (Name' (Self' conn))\<rparr>
                em)))))"

definition data_branch ::
  "graphenv \<Rightarrow> Table' \<Rightarrow> Connection' \<Rightarrow> nodemap \<times> edgemap \<Rightarrow> fault + nodemap \<times> edgemap" where
  "data_branch env tb conn st =
     (let nm = fst st; em = snd st;
          peer = Type' conn @ '':'' @ Name' (Peer' conn);
          arc = (if Type' conn \<noteq> ''REG'' \<and> Type' conn \<noteq> ''DIR'' then kernArc else dataArc)
      in
      bindE (shortname tb (Pid' (Self' conn))) (\<lambda>sn.
        (let eid = edge_id (Pid' (Self' conn)) (Pid' (Peer' conn)) in
         Inr (AList.update (Pid' (Peer' conn))
                \<lparr>n_id = Pid' (Peer' conn), n_col2 = Type' conn, n_col3 = Name' (Peer' conn),
                 n_col4 = peer, n_col5 = sn, n_arc = arc\<rparr> nm,
              if \<not> has_key em eid then
                AList.update eid
                  \<lparr>e_id = eid, e_source = Pid' (Self' conn), e_target = Pid' (Peer' conn),
                   e_col4 = sn, e_col5 = QueryEscape env peer,
                   e_label = transport (Type' conn) (Name' (Self' conn)) (Name' (Peer' conn))\<rparr>
                  em
              else em))))"

text \<open>\<open>em[id][6] = em[id][6].(string) + s\<close>, for an id that is in the map.\<close>

definition append_label :: "string \<Rightarrow> string \<Rightarrow> edgemap \<Rightarrow> edgemap" where
  "append_label eid s em =
     (case map_of em eid of
        None \<Rightarrow> em
      | Some e \<Rightarrow> AList.update eid (e\<lparr>e_label := e_label e @ s\<rparr>) em)"

text \<open>The edge of an inter-process connection: shown once for the two directions.\<close>

definition merge_edge :: "Connection' \<Rightarrow> string \<Rightarrow> string \<Rightarrow> edgemap \<Rightarrow> edgemap" where
  "merge_edge conn sn peer em =
     (let eid = edge_id (Pid' (Self' conn)) (Pid' (Peer' conn));
          di = edge_id (Pid' (Peer' conn)) (Pid' (Self' conn))
      in
      if has_key em eid then
        append_label eid
          (CHR 0x0A # transport (Type' conn) (Name' (Self' conn)) (Name' (Peer' conn))) em
      else if has_key em di then
        append_label di
          (CHR 0x0A # transport (Type' conn) (Name' (Peer' conn)) (Name' (Self' conn))) em
      else
        AList.update eid
          \<lparr>e_id = eid, e_source = Pid' (Self' conn), e_target = Pid' (Peer' conn),
           e_col4 = sn, e_col5 = peer,
           e_label = sn @ arrow @ peer @
             CHR 0x0A # transport (Type' conn) (Name' (Self' conn)) (Name' (Peer' conn))\<rparr>
          em)"

definition process_branch ::
  "graphenv \<Rightarrow> Table' \<Rightarrow> Connection' \<Rightarrow> nodemap \<times> edgemap \<Rightarrow> fault + nodemap \<times> edgemap" where
  "process_branch env tb conn st =
     (let nm = fst st; em = snd st in
      bindE (shortname tb (Pid' (Peer' conn))) (\<lambda>peer.
      bindE (process_node env tb (Pid' (Peer' conn))) (\<lambda>row.
      bindE (shortname tb (Pid' (Self' conn))) (\<lambda>sn.
        Inr (AList.update (Pid' (Peer' conn)) row nm, merge_edge conn sn peer em)))))"

text \<open>Body of \<open>for _, conn := range p.Connections\<close>; \<open>pid\<close> is the process id of the query.\<close>

definition graph_step ::
  "graphenv \<Rightarrow> Table' \<Rightarrow> Pid \<Rightarrow> Connection' \<Rightarrow> nodemap \<times> edgemap \<Rightarrow> fault + nodemap \<times> edgemap" where
  "graph_step env tb pid conn st =
     (if Pid' (Self' conn) = 0 \<or> Pid' (Peer' conn) = 0 \<or>
         Pid' (Self' conn) = 1 \<or> Pid' (Peer' conn) = 1 \<or>
         Pid' (Self' conn) = Pid' (Peer' conn) \<or>
         pid = 0 \<and> Pid' (Peer' conn) \<ge> MaxInt32
      then Inr st
      else
        bindE (process_node env tb (Pid' (Self' conn))) (\<lambda>row.
          (let st1 = (AList.update (Pid' (Self' conn)) row (fst st), snd st) in
           if Pid' (Peer' conn) < 0 then host_branch env tb conn st1
           else if Pid' (Peer' conn) \<ge> MaxInt32 then data_branch env tb conn st1
           else process_branch env tb conn st1)))"

text \<open>Body of \<open>for _, p := range pt\<close>: a nil entry panics.\<close>

definition graph_proc ::
  "graphenv \<Rightarrow> Table' \<Rightarrow> Pid \<Rightarrow> process' option \<Rightarrow> nodemap \<times> edgemap \<Rightarrow> fault + nodemap \<times> edgemap" where
  "graph_proc env tb pid p st =
     (case p of
        None \<Rightarrow> Inl NilDereference
      | Some q \<Rightarrow> foldE (graph_step env tb pid) (Connections' q) st)"

text \<open>The loop \<open>for _, p := range pt\<close> over the entries \<open>ps\<close> of \<open>pt\<close>, from empty maps.\<close>

definition assemble ::
  "graphenv \<Rightarrow> Table' \<Rightarrow> process' option list \<Rightarrow> Pid \<Rightarrow> fault + nodemap \<times> edgemap" where
  "assemble env tb ps pid = foldE (graph_proc env tb pid) ps ([], [])"

subsection \<open>The processes of the graph\<close>

text \<open>\<open>tb[pid]\<close> read as a pointer: nil for a key that is missing.\<close>

definition entry :: "Table' \<Rightarrow> Pid \<Rightarrow> process' option" where
  "entry tb pid = (case tb pid of None \<Rightarrow> None | Some e \<Rightarrow> e)"

text \<open>
  The first loop of \<open>family\<close>, \<open>for pid := pid; pid > 0; pid = tb[pid].Ppid\<close>, which enters
  the ancestors of a process in \<open>pt\<close>. Reading the parent id of a missing entry panics.
  Nothing bounds the walk: over a table whose parent ids form a cycle the loop does not
  return, which is the value \<open>None\<close>.
\<close>

partial_function (option) ancestors :: "Table' \<Rightarrow> Pid \<Rightarrow> Table' \<Rightarrow> (fault + Table') option" where
  "ancestors tb pid pt =
     (if 0 < pid then
        (case entry tb pid of
           None \<Rightarrow> Some (Inl NilDereference)
         | Some p \<Rightarrow> ancestors tb (Ppid' p) (pt(pid \<mapsto> Some p)))
      else Some (Inr pt))"

declare ancestors.simps [code]

text \<open>\<open>family\<close>: the ancestors of a process and the processes of its tree.\<close>

definition family :: "graphenv \<Rightarrow> Table' \<Rightarrow> Pid \<Rightarrow> (fault + Table') option" where
  "family env tb pid =
     (case ancestors tb pid Map.empty of
        None \<Rightarrow> None
      | Some (Inl e) \<Rightarrow> Some (Inl e)
      | Some (Inr pt) \<Rightarrow>
          Some (Inr (fold (\<lambda>q m. m(q \<mapsto> entry tb q)) (Flatten env tb pid) pt)))"

text \<open>A loop whose body may panic or not return.\<close>

fun foldO :: "('a \<Rightarrow> 's \<Rightarrow> (fault + 's) option) \<Rightarrow> 'a list \<Rightarrow> 's \<Rightarrow> (fault + 's) option" where
  "foldO f [] s = Some (Inr s)"
| "foldO f (x # xs) s =
     (case f x s of
        None \<Rightarrow> None
      | Some (Inl e) \<Rightarrow> Some (Inl e)
      | Some (Inr s') \<Rightarrow> foldO f xs s')"

text \<open>
  Body of \<open>for pid, p := range tb\<close>, the selection for the query of all processes: the
  family of every process whose parent is neither the kernel nor launchd, and every process
  with a connection to a remote host. Reading the parent id of a nil entry panics.
\<close>

definition select_step :: "graphenv \<Rightarrow> Table' \<Rightarrow> Pid \<Rightarrow> Table' \<Rightarrow> (fault + Table') option" where
  "select_step env tb q pt =
     (case tb q of
        Some (Some p) \<Rightarrow>
          (case (if 1 < Ppid' p then family env tb q else Some (Inr Map.empty)) of
             None \<Rightarrow> None
           | Some (Inl e) \<Rightarrow> Some (Inl e)
           | Some (Inr fam) \<Rightarrow>
               Some (Inr (fold (\<lambda>conn m. if Pid' (Peer' conn) < 0
                                   then m(Pid' (Self' conn) \<mapsto> entry tb (Pid' (Self' conn)))
                                   else m)
                            (Connections' p)
                            (\<lambda>k. case fam k of None \<Rightarrow> pt k | Some e \<Rightarrow> Some e))))
      | _ \<Rightarrow> Some (Inl NilDereference))"

text \<open>
  \<open>if pid != 0 && tb[pid] == nil { pid = 0 }\<close>, and the table \<open>pt\<close> of the processes to
  show; \<open>otb\<close> is the order in which \<open>range tb\<close> visits the keys of the table.
\<close>

definition reset_pid :: "Table' \<Rightarrow> Pid \<Rightarrow> Pid" where
  "reset_pid tb pid = (if pid \<noteq> 0 \<and> entry tb pid = None then 0 else pid)"

definition selected :: "graphenv \<Rightarrow> Pid list \<Rightarrow> Table' \<Rightarrow> Pid \<Rightarrow> (fault + Table') option" where
  "selected env otb tb pid =
     (if 0 < pid then family env tb pid else foldO (select_step env tb) otb Map.empty)"

text \<open>The entries of \<open>pt\<close> as \<open>range pt\<close> meets them, for the order \<open>opt\<close> of its keys.\<close>

definition entries :: "Pid list \<Rightarrow> Table' \<Rightarrow> process' option list" where
  "entries opt pt = List.map_filter pt opt"

subsection \<open>The response\<close>

text \<open>
  \<open>tb\<close> is the table after \<open>process.Connections\<close>, \<open>pid\<close> the process id of the query. The
  frames are the node rows sorted by id and the edge rows sorted by source and target, as
  handed to \<open>nodeFrames\<close>. A recovered panic leaves the frames unset and sets the error of the
  response. \<open>None\<close> stands for a call that does not return.
\<close>

record response =
  Frames :: "(node list \<times> edge list) option"
  Error :: "fault option"

definition Nodegraph ::
  "graphenv \<Rightarrow> Pid list \<Rightarrow> Pid list \<Rightarrow> Table' \<Rightarrow> Pid \<Rightarrow> response option" where
  "Nodegraph env otb opt tb pid0 =
     (let pid = reset_pid tb pid0 in
      case selected env otb tb pid of
        None \<Rightarrow> None
      | Some (Inl e) \<Rightarrow> Some \<lparr>Frames = None, Error = Some e\<rparr>
      | Some (Inr pt) \<Rightarrow>
          (case assemble env tb (entries opt pt) pid of
             Inl e \<Rightarrow> Some \<lparr>Frames = None, Error = Some e\<rparr>
           | Inr st \<Rightarrow>
               Some \<lparr>Frames = Some (sort_key n_id (map snd (fst st)),
                                    sort_key (\<lambda>e. (e_source e, e_target e)) (map snd (snd st))),
                     Error = None\<rparr>))"

section \<open>Example inputs\<close>

text \<open>
  A host environment for the examples: it answers like Go's \<open>net\<close> package on the few
  strings the examples use, and its only addresses are 192.168.1.7 and the loopback.
\<close>

definition ex_env :: netenv where
  "ex_env =
     \<lparr>SplitHostPort =
        (\<lambda>s. if s = ''203.0.113.5:443'' then Some (''203.0.113.5'', ''443'')
             else if s = ''127.0.0.1:8080'' then Some (''127.0.0.1'', ''8080'')
             else if s = ''localhost:8080'' then Some (''localhost'', ''8080'')
             else None),
      ParseIP = (\<lambda>h. if h = ''203.0.113.5'' \<or> h = ''127.0.0.1'' then Some h else None),
      localIps = {''localhost'', ''192.168.1.7''},
      interfaces = [''192.168.1.7'' \<mapsto> ''en0'', ''127.0.0.1'' \<mapsto> ''lo0''],
      IsLoopback = (\<lambda>s. s = ''127.0.0.1''),
      IsInterfaceLocalMulticast = (\<lambda>s. False),
      IsLinkLocalMulticast = (\<lambda>s. False),
      IsLinkLocalUnicast = (\<lambda>s. False)\<rparr>"

definition proc_kernel :: process where
  "proc_kernel = \<lparr>Ppid = 0, Exec = ''kernel_task'', Connections = []\<rparr>"

definition proc_launchd :: process where
  "proc_launchd = \<lparr>Ppid = 0, Exec = ''/sbin/launchd'', Connections = []\<rparr>"

text \<open>Two processes holding the two ends of one TCP connection.\<close>

definition desc_client :: Connection where
  "desc_client = \<lparr>Descriptor = 3, Type = ''TCP'', Name = ''0x1'', Self = ''a:1'', Peer = ''b:2''\<rparr>"

definition desc_server :: Connection where
  "desc_server = \<lparr>Descriptor = 4, Type = ''TCP'', Name = ''0x2'', Self = ''b:2'', Peer = ''a:1''\<rparr>"

definition proc_client :: process where
  "proc_client = \<lparr>Ppid = 1, Exec = ''/bin/client'', Connections = [desc_client]\<rparr>"

definition proc_server :: process where
  "proc_server = \<lparr>Ppid = 1, Exec = ''/bin/server'', Connections = [desc_server]\<rparr>"

definition pt_pair :: processTable where
  "pt_pair = [0 \<mapsto> Some proc_kernel, 1 \<mapsto> Some proc_launchd,
              10 \<mapsto> Some proc_client, 20 \<mapsto> Some proc_server]"

text \<open>A table whose only process, 50, names a parent 10 that the table does not hold.\<close>

definition proc_orphan :: process where
  "proc_orphan = \<lparr>Ppid = 10, Exec = ''/bin/orphan'', Connections = []\<rparr>"

definition pt_orphan :: processTable where
  "pt_orphan = [50 \<mapsto> Some proc_orphan]"

text \<open>A process holding one named unix-domain socket.\<close>

definition desc_named :: Connection where
  "desc_named = \<lparr>Descriptor = 5, Type = ''unix'', Name = ''0x1a2b'', Self = ''0x1a2b'',
                   Peer = ''/var/run/syslog''\<rparr>"

definition proc_syslogd :: process where
  "proc_syslogd = \<lparr>Ppid = 1, Exec = ''/usr/sbin/syslogd'', Connections = [desc_named]\<rparr>"

definition pt_named :: processTable where
  "pt_named = [0 \<mapsto> Some proc_kernel, 1 \<mapsto> Some proc_launchd, 30 \<mapsto> Some proc_syslogd]"

text \<open>A process with a listening TCP socket, beside the client and server pair.\<close>

definition desc_listen :: Connection where
  "desc_listen = \<lparr>Descriptor = 6, Type = ''TCP'', Name = ''0x3'', Self = ''*:80'', Peer = []\<rparr>"

definition proc_httpd :: process where
  "proc_httpd = \<lparr>Ppid = 1, Exec = ''/usr/sbin/httpd'', Connections = [desc_listen]\<rparr>"

definition pt_listen :: processTable where
  "pt_listen = [0 \<mapsto> Some proc_kernel, 1 \<mapsto> Some proc_launchd, 40 \<mapsto> Some proc_httpd]"

text \<open>
  Three processes on unix-domain sockets: 10 holds one end, whose peer is the socket
  \<open>0xb\<close>; 20 holds \<open>0xb\<close> without a peer string; 30 holds \<open>0xb\<close> with 10's end as peer.
\<close>

definition desc_ua :: Connection where
  "desc_ua = \<lparr>Descriptor = 3, Type = ''unix'', Name = ''0xa'', Self = ''0xa'', Peer = ''0xb''\<rparr>"

definition desc_ub :: Connection where
  "desc_ub = \<lparr>Descriptor = 4, Type = ''unix'', Name = ''0xb'', Self = ''0xb'', Peer = []\<rparr>"

definition desc_uc :: Connection where
  "desc_uc = \<lparr>Descriptor = 5, Type = ''unix'', Name = ''0xb'', Self = ''0xb'', Peer = ''0xa''\<rparr>"

definition pt_unix :: processTable where
  "pt_unix = [0 \<mapsto> Some proc_kernel, 1 \<mapsto> Some proc_launchd,
              10 \<mapsto> Some \<lparr>Ppid = 1, Exec = ''/bin/a'', Connections = [desc_ua]\<rparr>,
              20 \<mapsto> Some \<lparr>Ppid = 1, Exec = ''/bin/b'', Connections = [desc_ub]\<rparr>,
              30 \<mapsto> Some \<lparr>Ppid = 1, Exec = ''/bin/c'', Connections = [desc_uc]\<rparr>]"

text \<open>
  A process with four TCP sockets whose peers are not in the index: a remote address, the
  loopback address, the local host by name, and a string that is no host:port pair.
\<close>

definition desc_remote :: Connection where
  "desc_remote = \<lparr>Descriptor = 7, Type = ''TCP'', Name = ''0x7'', Self = ''192.168.1.7:50000'',
                    Peer = ''203.0.113.5:443''\<rparr>"

definition desc_loop :: Connection where
  "desc_loop = \<lparr>Descriptor = 8, Type = ''TCP'', Name = ''0x8'', Self = ''127.0.0.1:50001'',
                  Peer = ''127.0.0.1:8080''\<rparr>"

definition desc_byname :: Connection where
  "desc_byname = \<lparr>Descriptor = 9, Type = ''TCP'', Name = ''0x9'', Self = ''localhost:50002'',
                    Peer = ''localhost:8080''\<rparr>"

definition desc_unparsed :: Connection where
  "desc_unparsed = \<lparr>Descriptor = 10, Type = ''TCP'', Name = ''0xa'', Self = ''192.168.1.7:50003'',
                      Peer = ''nowhere''\<rparr>"

definition proc_curl :: process where
  "proc_curl = \<lparr>Ppid = 1, Exec = ''/usr/bin/curl'',
                  Connections = [desc_remote, desc_loop, desc_byname, desc_unparsed]\<rparr>"

definition pt_remote :: processTable where
  "pt_remote = [0 \<mapsto> Some proc_kernel, 1 \<mapsto> Some proc_launchd, 60 \<mapsto> Some proc_curl]"

text \<open>
  Inputs of the assembly, as \<open>process.Connections\<close> leaves them, with the connection of
  type \<open>parent\<close> at the end of the descriptors of every process with a positive parent id.
  In \<open>tb_pair\<close> processes 10 and 20, children of the shell 5, hold three connections to each
  other, two seen from 10 and one from 20. In \<open>tb_orphan\<close> process 50 names a parent 40 that
  the table lacks. The trees asked for in the examples are those of processes without
  children: the process alone.
\<close>

definition ex_genv :: graphenv where
  "ex_genv = netenv.extend ex_env
     (graphenv.fields (\<lambda>h. h) (\<lambda>s. s) (\<lambda>s. None) Itoa (\<lambda>tb pid. [pid]))"

definition gproc_launchd :: process' where
  "gproc_launchd =
     \<lparr>IdName' = ''launchd'', Executable' = ''/sbin/launchd'', Ppid' = 0, Connections' = []\<rparr>"

definition gproc_shell :: process' where
  "gproc_shell =
     \<lparr>IdName' = ''sh'', Executable' = ''/bin/sh'', Ppid' = 1,
      Connections' =
        [\<lparr>Type' = ''parent'', Self' = \<lparr>Name' = ''/sbin/launchd'', Pid' = 1\<rparr>,
          Peer' = \<lparr>Name' = ''/bin/sh'', Pid' = 5\<rparr>\<rparr>]\<rparr>"

definition gproc_client :: process' where
  "gproc_client =
     \<lparr>IdName' = ''client'', Executable' = ''/bin/client'', Ppid' = 5,
      Connections' =
        [\<lparr>Type' = ''TCP'', Self' = \<lparr>Name' = ''a:1'', Pid' = 10\<rparr>,
          Peer' = \<lparr>Name' = ''b:2'', Pid' = 20\<rparr>\<rparr>,
         \<lparr>Type' = ''unix'', Self' = \<lparr>Name' = ''0xa'', Pid' = 10\<rparr>,
          Peer' = \<lparr>Name' = ''0xb'', Pid' = 20\<rparr>\<rparr>,
         \<lparr>Type' = ''parent'', Self' = \<lparr>Name' = ''/bin/sh'', Pid' = 5\<rparr>,
          Peer' = \<lparr>Name' = ''/bin/client'', Pid' = 10\<rparr>\<rparr>]\<rparr>"

definition gproc_server :: process' where
  "gproc_server =
     \<lparr>IdName' = ''server'', Executable' = ''/bin/server'', Ppid' = 5,
      Connections' =
        [\<lparr>Type' = ''TCP'', Self' = \<lparr>Name' = ''b:2'', Pid' = 20\<rparr>,
          Peer' = \<lparr>Name' = ''a:1'', Pid' = 10\<rparr>\<rparr>,
         \<lparr>Type' = ''parent'', Self' = \<lparr>Name' = ''/bin/sh'', Pid' = 5\<rparr>,
          Peer' = \<lparr>Name' = ''/bin/server'', Pid' = 20\<rparr>\<rparr>]\<rparr>"

definition tb_pair :: Table' where
  "tb_pair = [1 \<mapsto> Some gproc_launchd, 5 \<mapsto> Some gproc_shell,
              10 \<mapsto> Some gproc_client, 20 \<mapsto> Some gproc_server]"



section \<open>Notions used to state the properties\<close>

text \<open>A descriptor is entered in the index under \<open>key\<close>; the positions a process has there.\<close>

definition indexed :: "string \<Rightarrow> Connection \<Rightarrow> bool" where
  "indexed key conn =
     (Self conn \<noteq> [] \<and> is_transport (Type conn) \<and> epm_key (Type conn) (Self conn) = key)"

definition positions :: "process \<Rightarrow> string \<Rightarrow> nat list" where
  "positions p key =
     map fst (filter (\<lambda>ic. indexed key (snd ic)) (enumerate 0 (Connections p)))"

text \<open>Shape of an index as the first loop builds it.\<close>

definition epm_inv :: "epmap \<Rightarrow> bool" where
  "epm_inv epm =
     ((\<forall>key. distinct (map fst (epm_get epm key))) \<and>
      (\<forall>key. has_key epm key = (epm_get epm key \<noteq> [])) \<and>
      (\<forall>key pid. (pid \<in> fst ` set (epm_get epm key)) = (epm_ix epm key pid \<noteq> [])))"

text \<open>
  The assignments \<open>connm[k] = c\<close> that the main loop makes over a table \<open>pt\<close>, one
  predicate for each assignment in the source, and the maps reachable by such assignments.
\<close>

definition self_endpoint :: "Pid \<Rightarrow> process \<Rightarrow> Connection \<Rightarrow> endpoint" where
  "self_endpoint pid p conn =
     \<lparr>ep_pid = pid, ep_fd = Descriptor conn, ep_command = Exec p, ep_name = Self conn\<rparr>"

definition put_parent :: "processTable \<Rightarrow> key4 \<Rightarrow> connection \<Rightarrow> bool" where
  "put_parent pt k c =
     (\<exists>pid p pp. pt pid = Some (Some p) \<and> pt (Ppid p) = Some (Some pp) \<and>
        k = (Ppid p, - 1, pid, - 1) \<and> c = parent_connection (Ppid p) pp pid p)"

definition put_data :: "processTable \<Rightarrow> key4 \<Rightarrow> connection \<Rightarrow> bool" where
  "put_data pt k c =
     (\<exists>pid p d. pt pid = Some (Some p) \<and> d \<in> set (Connections p) \<and>
        (Type d = ''REG'' \<or> Type d = ''PSXSHM'') \<and>
        k = (pid, Descriptor d, MaxInt32, 0) \<and>
        c = \<lparr>c_ftype = Type d, c_name = Name d, c_self = self_endpoint pid p d,
              c_peer = \<lparr>ep_pid = MaxInt32, ep_fd = 0, ep_command = [], ep_name = Name d\<rparr>\<rparr>)"

definition put_kernel :: "processTable \<Rightarrow> key4 \<Rightarrow> connection \<Rightarrow> bool" where
  "put_kernel pt k c =
     (\<exists>pid p d. pt pid = Some (Some p) \<and> d \<in> set (Connections p) \<and> Type d = ''systm'' \<and>
        k = (pid, Descriptor d, 0, 0) \<and>
        c = \<lparr>c_ftype = Type d, c_name = Name d, c_self = self_endpoint pid p d,
              c_peer = \<lparr>ep_pid = 0, ep_fd = 0, ep_command = Peer d, ep_name = Name d\<rparr>\<rparr>)"

definition put_host :: "processTable \<Rightarrow> key4 \<Rightarrow> connection \<Rightarrow> bool" where
  "put_host pt k c =
     (\<exists>pid p d port. pt pid = Some (Some p) \<and> d \<in> set (Connections p) \<and>
        (Type d = ''TCP'' \<or> Type d = ''UDP'') \<and> Peer d \<noteq> [] \<and>
        k = (- 1, - 1, pid, Descriptor d) \<and>
        c = \<lparr>c_ftype = Type d, c_name = Name d,
              c_self = \<lparr>ep_pid = - 1, ep_fd = - 1, ep_command = port, ep_name = Peer d\<rparr>,
              c_peer = self_endpoint pid p d\<rparr>)"

definition put_peer :: "processTable \<Rightarrow> connmap \<Rightarrow> key4 \<Rightarrow> connection \<Rightarrow> bool" where
  "put_peer pt m k c =
     (\<exists>pid p d rpid rp rd. pt pid = Some (Some p) \<and> d \<in> set (Connections p) \<and>
        is_transport (Type d) \<and> Peer d \<noteq> [] \<and> pid \<noteq> rpid \<and>
        pt rpid = Some (Some rp) \<and> rd \<in> set (Connections rp) \<and> reciprocal d rd \<and>
        k = (pid, Descriptor d, rpid, Descriptor rd) \<and>
        c = \<lparr>c_ftype = Type d, c_name = Name d, c_self = self_endpoint pid p d,
              c_peer = \<lparr>ep_pid = rpid, ep_fd = Descriptor rd, ep_command = Exec rp,
                        ep_name = Peer d\<rparr>\<rparr> \<and>
        \<not> has_key m k \<and> \<not> has_key m (rpid, Descriptor rd, pid, Descriptor d))"

definition allowed :: "processTable \<Rightarrow> connmap \<Rightarrow> key4 \<Rightarrow> connection \<Rightarrow> bool" where
  "allowed pt m k c =
     (put_parent pt k c \<or> put_data pt k c \<or> put_kernel pt k c \<or> put_host pt k c \<or>
      put_peer pt m k c)"

definition put_step :: "processTable \<Rightarrow> connmap \<Rightarrow> connmap \<Rightarrow> bool" where
  "put_step pt m m' = (\<exists>k c. allowed pt m k c \<and> m' = AList.update k c m)"

definition reaches :: "processTable \<Rightarrow> connmap \<Rightarrow> connmap \<Rightarrow> bool" where
  "reaches pt = (put_step pt)\<^sup>*\<^sup>*"

text \<open>Every entry of the connection map sits under the key its two endpoints spell.\<close>

definition keyed :: "connmap \<Rightarrow> bool" where
  "keyed m = (\<forall>k c. map_of m k = Some c \<longrightarrow> conn_key c = k)"

text \<open>
  A table on which the pass meets no nil pointer: every entry is a process, and so is the
  entry of its parent. An order of iteration visits every key of the table once.
\<close>

definition complete_table :: "processTable \<Rightarrow> bool" where
  "complete_table pt =
     (\<forall>pid \<in> dom pt. \<exists>p pp. pt pid = Some (Some p) \<and> pt (Ppid p) = Some (Some pp))"

definition visits :: "Pid list \<Rightarrow> processTable \<Rightarrow> bool" where
  "visits ord pt = (distinct ord \<and> set ord = dom pt)"

text \<open>Descriptor numbers are file descriptors: none is negative.\<close>

definition descriptors_nonneg :: "processTable \<Rightarrow> bool" where
  "descriptors_nonneg pt =
     (\<forall>pid p. pt pid = Some (Some p) \<longrightarrow> (\<forall>d \<in> set (Connections p). 0 \<le> Descriptor d))"

text \<open>
  The reciprocal condition in the words of the specification (section 4.2.c), to be compared
  with \<open>reciprocal\<close>, which is the condition of the code: the candidate's type matches, the
  candidate's peer string equals this descriptor's local string, and the candidate's self
  string equals this descriptor's peer string or is empty on a shared-memory or unix-domain
  transport.
\<close>

definition reciprocal_spec :: "Connection \<Rightarrow> Connection \<Rightarrow> bool" where
  "reciprocal_spec conn rconn =
     (Type rconn = Type conn \<and> Peer rconn = Self conn \<and>
      (Self rconn = Peer conn \<or>
       Self rconn = [] \<and> (Type conn = ''PSXSHM'' \<or> Type conn = ''unix'')))"

text \<open>
  The keys that a descriptor \<open>A\<close> of process \<open>P\<close> adds to a map \<open>m\<close>, and a map grown
  from \<open>m\<close> by such keys.
\<close>

definition accepted :: "processTable \<Rightarrow> Pid \<Rightarrow> Connection \<Rightarrow> connmap \<Rightarrow> key4 \<Rightarrow> bool" where
  "accepted pt P A m k =
     (\<exists>Q q B. Q \<noteq> P \<and> pt Q = Some (Some q) \<and> B \<in> set (Connections q) \<and> reciprocal A B \<and>
        k = (P, Descriptor A, Q, Descriptor B) \<and> \<not> has_key m (Q, Descriptor B, P, Descriptor A))"

definition grows :: "processTable \<Rightarrow> Pid \<Rightarrow> Connection \<Rightarrow> connmap \<Rightarrow> connmap \<Rightarrow> bool" where
  "grows pt P A m u =
     ((\<forall>k. has_key m k \<longrightarrow> has_key u k) \<and>
      (\<forall>k. has_key u k \<longrightarrow> has_key m k \<or> accepted pt P A m k))"

text \<open>
  What holds of the edge map throughout the assembly: every row sits under its own id, and
  no two process ids below the sentinel of the data nodes have an edge in both directions.
\<close>

definition edges_ok :: "edgemap \<Rightarrow> bool" where
  "edges_ok em =
     (distinct (map fst em) \<and>
      (\<forall>k e. map_of em k = Some e \<longrightarrow> e_id e = k) \<and>
      (\<forall>a b. 0 \<le> a \<and> a < MaxInt32 \<and> 0 \<le> b \<and> b < MaxInt32 \<and> a \<noteq> b
         \<longrightarrow> \<not> (has_key em (edge_id a b) \<and> has_key em (edge_id b a))))"

text \<open>The ids of the edges that a response carries.\<close>

definition edge_ids :: "response \<Rightarrow> string list" where
  "edge_ids resp = (case Frames resp of None \<Rightarrow> [] | Some fr \<Rightarrow> map e_id (snd fr))"

text \<open>
  The guard of the \<open>continue\<close> of the assembly loop, the connections that the loop meets
  over the entries \<open>ps\<close>, in order, and those among them that join two given processes and
  are not passed over.
\<close>

definition skipped :: "Pid \<Rightarrow> Connection' \<Rightarrow> bool" where
  "skipped pid conn =
     (Pid' (Self' conn) = 0 \<or> Pid' (Peer' conn) = 0 \<or>
      Pid' (Self' conn) = 1 \<or> Pid' (Peer' conn) = 1 \<or>
      Pid' (Self' conn) = Pid' (Peer' conn) \<or>
      pid = 0 \<and> MaxInt32 \<le> Pid' (Peer' conn))"

definition joins :: "Pid \<Rightarrow> Pid \<Rightarrow> Connection' \<Rightarrow> bool" where
  "joins P Q conn =
     (Pid' (Self' conn) = P \<and> Pid' (Peer' conn) = Q \<or>
      Pid' (Self' conn) = Q \<and> Pid' (Peer' conn) = P)"

definition visited :: "process' option list \<Rightarrow> Connection' list" where
  "visited ps = concat (map (\<lambda>p. case p of None \<Rightarrow> [] | Some q \<Rightarrow> Connections' q) ps)"

definition links :: "Pid \<Rightarrow> Pid \<Rightarrow> Pid \<Rightarrow> Connection' list \<Rightarrow> Connection' list" where
  "links pid P Q cs = filter (\<lambda>c. joins P Q c \<and> \<not> skipped pid c) cs"

text \<open>
  The connections that a call of \<open>Nodegraph\<close> meets in its assembly loop, none when the
  selection of the processes does not complete.
\<close>

definition roster :: "graphenv \<Rightarrow> Pid list \<Rightarrow> Pid list \<Rightarrow> Table' \<Rightarrow> Pid \<Rightarrow> Connection' list" where
  "roster env otb opt tb pid0 =
     (case selected env otb tb (reset_pid tb pid0) of
        Some (Inr pt) \<Rightarrow> visited (entries opt pt)
      | _ \<Rightarrow> [])"

text \<open>
  The line that a connection contributes to the label of the edge of its pair, on an edge
  whose source is \<open>S\<close>: a line feed and the transport, the name of the endpoint of \<open>S\<close>
  first. \<open>sname\<close> is the short name of a process that has one.
\<close>

definition line_of :: "Pid \<Rightarrow> Connection' \<Rightarrow> string" where
  "line_of S conn =
     CHR 0x0A #
       (if Pid' (Self' conn) = S
        then transport (Type' conn) (Name' (Self' conn)) (Name' (Peer' conn))
        else transport (Type' conn) (Name' (Peer' conn)) (Name' (Self' conn)))"

definition sname :: "Table' \<Rightarrow> Pid \<Rightarrow> string" where
  "sname tb k = (case shortname tb k of Inl e \<Rightarrow> [] | Inr s \<Rightarrow> s)"

definition pair_label :: "Table' \<Rightarrow> Pid \<Rightarrow> Pid \<Rightarrow> Connection' list \<Rightarrow> string" where
  "pair_label tb S T cs = sname tb S @ arrow @ sname tb T @ concat (map (line_of S) cs)"

text \<open>
  What holds of the edges of two processes \<open>P\<close> and \<open>Q\<close> once the loop has met the
  connections \<open>cs\<close>: no edge as long as none of them joins the two; afterwards one edge, from
  the self to the peer of the first that did, labelled with the two short names and a line
  for every connection that joins the two, in the order the loop met them.
\<close>

definition merged :: "Table' \<Rightarrow> Pid \<Rightarrow> Pid \<Rightarrow> Pid \<Rightarrow> Connection' list \<Rightarrow> edgemap \<Rightarrow> bool" where
  "merged tb pid P Q cs em =
     (case links pid P Q cs of
        [] \<Rightarrow> \<not> has_key em (edge_id P Q) \<and> \<not> has_key em (edge_id Q P)
      | c # rest \<Rightarrow>
          \<not> has_key em (edge_id (Pid' (Peer' c)) (Pid' (Self' c))) \<and>
          (case map_of em (edge_id (Pid' (Self' c)) (Pid' (Peer' c))) of
             None \<Rightarrow> False
           | Some e \<Rightarrow>
               e_source e = Pid' (Self' c) \<and> e_target e = Pid' (Peer' c) \<and>
               e_label e = pair_label tb (Pid' (Self' c)) (Pid' (Peer' c)) (c # rest)))"

text \<open>The edge rows that a response carries.\<close>

definition edges :: "response \<Rightarrow> edge list" where
  "edges resp = (case Frames resp of None \<Rightarrow> [] | Some fr \<Rightarrow> snd fr)"





section \<open>Facts about the loops\<close>

lemma foldE_append:
  "foldE f (xs @ ys) s = (case foldE f xs s of Inl e \<Rightarrow> Inl e | Inr s' \<Rightarrow> foldE f ys s')"
  by (induction xs arbitrary: s) (auto split: sum.splits)

lemma foldE_rel:
  assumes "foldE f xs s = Inr s'"
    and "\<And>x a b. x \<in> set xs \<Longrightarrow> f x a = Inr b \<Longrightarrow> R a b"
    and "\<And>a. R a a"
    and "\<And>a b c. R a b \<Longrightarrow> R b c \<Longrightarrow> R a c"
  shows "R s s'"
  using assms(1,2)
proof (induction xs arbitrary: s)
  case Nil
  then show ?case using assms(3) by simp
next
  case (Cons x xs)
  from Cons.prems(1) obtain t where t: "f x s = Inr t" "foldE f xs t = Inr s'"
    by (auto split: sum.splits)
  have "R s t" using Cons.prems(2) [of x s t] t(1) by simp
  moreover have "R t s'" using Cons.IH [OF t(2)] Cons.prems(2) by (meson list.set_intros(2))
  ultimately show ?case using assms(4) by blast
qed

lemma foldE_total:
  assumes "I s"
    and "\<And>x a. x \<in> set xs \<Longrightarrow> I a \<Longrightarrow> \<exists>b. f x a = Inr b \<and> I b"
  shows "\<exists>s'. foldE f xs s = Inr s' \<and> I s'"
  using assms
proof (induction xs arbitrary: s)
  case Nil
  then show ?case by simp
next
  case (Cons x xs)
  from Cons.prems obtain t where t: "f x s = Inr t" "I t" by fastforce
  from Cons.IH [OF t(2)] Cons.prems(2) obtain s' where "foldE f xs t = Inr s'" "I s'"
    by auto
  with t show ?case by simp
qed

lemma foldE_fault:
  assumes "x \<in> set xs" and "\<And>a. \<exists>e. f x a = Inl e"
  shows "\<exists>e. foldE f xs s = Inl e"
  using assms(1)
proof (induction xs arbitrary: s)
  case Nil
  then show ?case by simp
next
  case (Cons y ys)
  show ?case
  proof (cases "f y s")
    case (Inl e)
    then show ?thesis by simp
  next
    case (Inr t)
    show ?thesis
    proof (cases "x = y")
      case True
      with assms(2) [of s] Inr show ?thesis by simp
    next
      case False
      with Cons have "\<exists>e. foldE f ys t = Inl e" by simp
      with Inr show ?thesis by simp
    qed
  qed
qed

lemma foldE_reach:
  assumes "foldE f xs s = Inr s'" and "x \<in> set xs"
    and "\<And>a b. f x a = Inr b \<Longrightarrow> G b"
    and "\<And>y a b. y \<in> set xs \<Longrightarrow> G a \<Longrightarrow> f y a = Inr b \<Longrightarrow> G b"
  shows "G s'"
  using assms(1,2,4)
proof (induction xs arbitrary: s)
  case Nil
  then show ?case by simp
next
  case (Cons y ys)
  from Cons.prems(1) obtain t where t: "f y s = Inr t" "foldE f ys t = Inr s'"
    by (auto split: sum.splits)
  show ?case
  proof (cases "x = y")
    case True
    then have "G t" using assms(3) t(1) by simp
    have "\<And>a b z. z \<in> set ys \<Longrightarrow> G a \<Longrightarrow> f z a = Inr b \<Longrightarrow> G b"
      using Cons.prems(3) by (meson list.set_intros(2))
    then have "G s'" using t(2) \<open>G t\<close>
    proof (induction ys arbitrary: t)
      case Nil
      then show ?case by simp
    next
      case (Cons z zs)
      from Cons.prems(2) obtain u where u: "f z t = Inr u" "foldE f zs u = Inr s'"
        by (auto split: sum.splits)
      have "G u" using Cons.prems(1) [of z t u] Cons.prems(3) u(1) by simp
      moreover have "\<And>a b w. w \<in> set zs \<Longrightarrow> G a \<Longrightarrow> f w a = Inr b \<Longrightarrow> G b"
        using Cons.prems(1) by (meson list.set_intros(2))
      ultimately show ?case using Cons.IH [of u] u(2) by blast
    qed
    then show ?thesis .
  next
    case False
    then have "x \<in> set ys" using Cons.prems(2) by simp
    moreover have "\<And>z a b. z \<in> set ys \<Longrightarrow> G a \<Longrightarrow> f z a = Inr b \<Longrightarrow> G b"
      using Cons.prems(3) by (meson list.set_intros(2))
    ultimately show ?thesis using Cons.IH [OF t(2)] by blast
  qed
qed

lemma proc_step_missing_parent:
  assumes "pt pid = Some (Some p)" and "Ppid p \<notin> dom pt"
  shows "proc_step env pt epm pid connm = Inl NilDereference"
  using assms by (auto simp: proc_step_def Let_def dom_def)

section \<open>A parent missing from the table\<close>

text \<open>
  Claim C10. If the table holds a process whose parent id is not a key of the table, the
  main loop dereferences the nil entry of the parent, the panic is recovered, and
  \<open>connections\<close> returns the empty (nil) list, whatever the order of iteration.
\<close>

theorem connections_missing_parent:
  assumes "set ord2 = dom pt" and "pt pid = Some (Some p)" and "Ppid p \<notin> dom pt"
  shows "connections env ord1 ord2 pt = []"
proof (cases "build_epm ord1 pt")
  case (Inl e)
  then show ?thesis by (simp add: connections_def correlate_def)
next
  case (Inr epm)
  have "pid \<in> set ord2" using assms(1,2) by (auto simp: dom_def)
  then have "\<exists>e. foldE (proc_step env pt epm) ord2 [] = Inl e"
    by (rule foldE_fault) (simp add: proc_step_missing_parent [OF assms(2,3)])
  with Inr show ?thesis by (auto simp: connections_def correlate_def)
qed

theorem connections_missing_parent_witness:
  "set [50] = dom pt_orphan \<and> pt_orphan 50 = Some (Some proc_orphan) \<and>
   Ppid proc_orphan \<notin> dom pt_orphan \<and> connections ex_env [50] [50] pt_orphan = []"
proof -
  have a: "set [50] = dom pt_orphan" by (simp add: pt_orphan_def)
  have b: "pt_orphan 50 = Some (Some proc_orphan)" by (simp add: pt_orphan_def)
  have c: "Ppid proc_orphan \<notin> dom pt_orphan" by (simp add: pt_orphan_def proc_orphan_def)
  show ?thesis using a b c connections_missing_parent [OF a b c] by simp
qed

section \<open>The endpoint index read off the table\<close>

lemma epm_get_add:
  "epm_get (epm_add pid ic epm) key =
     (if indexed key (snd ic)
      then AList.update pid (epm_ix epm key pid @ [fst ic]) (epm_get epm key)
      else epm_get epm key)"
  by (auto simp: epm_add_def epm_get_def indexed_def Let_def update_conv')

lemma epm_has_add:
  "has_key (epm_add pid ic epm) key = (indexed key (snd ic) \<or> has_key epm key)"
  by (auto simp: epm_add_def has_key_def indexed_def Let_def update_conv')

lemma epm_ix_add:
  "epm_ix (epm_add pid ic epm) key pid' =
     epm_ix epm key pid' @ (if pid' = pid \<and> indexed key (snd ic) then [fst ic] else [])"
  unfolding epm_ix_def epm_get_add
  by (auto simp: update_conv' epm_ix_def)

lemma epm_inv_empty: "epm_inv []"
  by (simp add: epm_inv_def epm_get_def has_key_def epm_ix_def)

lemma epm_inv_add:
  assumes "epm_inv epm"
  shows "epm_inv (epm_add pid ic epm)"
  unfolding epm_inv_def
proof (intro conjI allI)
  fix key
  show "distinct (map fst (epm_get (epm_add pid ic epm) key))"
    using assms by (simp add: epm_get_add epm_inv_def distinct_update)
  show "has_key (epm_add pid ic epm) key = (epm_get (epm_add pid ic epm) key \<noteq> [])"
    using assms by (simp add: epm_get_add epm_has_add epm_inv_def)
next
  fix key pid'
  show "(pid' \<in> fst ` set (epm_get (epm_add pid ic epm) key))
          = (epm_ix (epm_add pid ic epm) key pid' \<noteq> [])"
    using assms by (auto simp: epm_get_add epm_ix_add epm_inv_def dom_update)
qed

lemma epm_inv_fold:
  "epm_inv epm \<Longrightarrow> epm_inv (fold (epm_add pid) ics epm)"
  by (induction ics arbitrary: epm) (simp_all add: epm_inv_add)

lemma epm_ix_fold:
  "epm_ix (fold (epm_add pid) ics epm) key pid' =
     epm_ix epm key pid' @
       (if pid' = pid then map fst (filter (\<lambda>ic. indexed key (snd ic)) ics) else [])"
  by (induction ics arbitrary: epm) (simp_all add: epm_ix_add)

lemma epm_proc_Inr:
  "epm_proc pt pid epm = Inr epm' \<Longrightarrow>
     \<exists>p. pt pid = Some (Some p) \<and> epm' = fold (epm_add pid) (enumerate 0 (Connections p)) epm"
  by (auto simp: epm_proc_def split: option.splits)

lemma epm_proc_ix:
  assumes "epm_proc pt pid epm = Inr epm'"
  shows "epm_ix epm' key pid' =
           epm_ix epm key pid' @
             (if pid' = pid then (case pt pid of Some (Some p) \<Rightarrow> positions p key | _ \<Rightarrow> []) else [])"
  using epm_proc_Inr [OF assms] by (auto simp: epm_ix_fold positions_def)

lemma epm_foldE_inv:
  "foldE (epm_proc pt) ord epm = Inr epm' \<Longrightarrow> epm_inv epm \<Longrightarrow> epm_inv epm'"
proof (induction ord arbitrary: epm)
  case Nil
  then show ?case by simp
next
  case (Cons pid ord)
  from Cons.prems(1) obtain t where t: "epm_proc pt pid epm = Inr t" "foldE (epm_proc pt) ord t = Inr epm'"
    by (auto split: sum.splits)
  from epm_proc_Inr [OF t(1)] Cons.prems(2) have "epm_inv t"
    by (auto simp: epm_inv_fold)
  then show ?case using Cons.IH [OF t(2)] by simp
qed

lemma epm_foldE_ix:
  assumes "foldE (epm_proc pt) ord epm = Inr epm'" and "distinct ord"
  shows "epm_ix epm' key pid =
           epm_ix epm key pid @
             (if pid \<in> set ord then (case pt pid of Some (Some p) \<Rightarrow> positions p key | _ \<Rightarrow> [])
              else [])"
  using assms
proof (induction ord arbitrary: epm)
  case Nil
  then show ?case by simp
next
  case (Cons q ord)
  from Cons.prems(1) obtain t where t: "epm_proc pt q epm = Inr t" "foldE (epm_proc pt) ord t = Inr epm'"
    by (auto split: sum.splits)
  have d: "distinct ord" "q \<notin> set ord" using Cons.prems(2) by simp_all
  show ?case
    using Cons.IH [OF t(2) d(1)] epm_proc_ix [OF t(1), of key pid] d(2)
    by auto
qed

lemma epm_foldE_nonnil:
  "foldE (epm_proc pt) ord epm = Inr epm' \<Longrightarrow> pid \<in> set ord \<Longrightarrow> \<exists>p. pt pid = Some (Some p)"
proof (induction ord arbitrary: epm)
  case Nil
  then show ?case by simp
next
  case (Cons q ord)
  from Cons.prems(1) obtain t where t: "epm_proc pt q epm = Inr t" "foldE (epm_proc pt) ord t = Inr epm'"
    by (auto split: sum.splits)
  show ?case
  proof (cases "pid = q")
    case True
    then show ?thesis using epm_proc_Inr [OF t(1)] by auto
  next
    case False
    then show ?thesis using Cons.IH [OF t(2)] Cons.prems(2) by simp
  qed
qed

lemma epm_foldE_total:
  assumes "\<forall>pid \<in> set ord. \<exists>p. pt pid = Some (Some p)"
  shows "\<exists>epm'. foldE (epm_proc pt) ord epm = Inr epm'"
proof -
  have "\<exists>s'. foldE (epm_proc pt) ord epm = Inr s' \<and> True"
    by (rule foldE_total) (use assms in \<open>auto simp: epm_proc_def\<close>)
  then show ?thesis by simp
qed

text \<open>What the finished index holds, read off the table.\<close>

lemma build_epm_ix:
  assumes "build_epm ord pt = Inr epm" and "distinct ord" and "pid \<in> set ord"
    and "pt pid = Some (Some p)"
  shows "epm_ix epm key pid = positions p key"
  using epm_foldE_ix [OF assms(1) [unfolded build_epm_def] assms(2), of key pid] assms(3,4)
  by (simp add: epm_ix_def epm_get_def)

lemma build_epm_ix_out:
  assumes "build_epm ord pt = Inr epm" and "distinct ord" and "pid \<notin> set ord"
  shows "epm_ix epm key pid = []"
  using epm_foldE_ix [OF assms(1) [unfolded build_epm_def] assms(2), of key pid] assms(3)
  by (simp add: epm_ix_def epm_get_def)

lemma build_epm_inv:
  "build_epm ord pt = Inr epm \<Longrightarrow> epm_inv epm"
  unfolding build_epm_def by (erule epm_foldE_inv) (rule epm_inv_empty)

lemma positions_set:
  "set (positions p key) = {i. i < length (Connections p) \<and> indexed key (Connections p ! i)}"
  by (auto simp: positions_def in_set_enumerate_eq image_iff)

lemma positions_sorted: "sorted (positions p key)" "distinct (positions p key)"
  unfolding positions_def
  by (simp_all add: sorted_filter distinct_map_filter)

section \<open>The main loop as a sequence of assignments\<close>

lemma reaches_refl: "reaches pt m m"
  by (simp add: reaches_def)

lemma reaches_trans: "reaches pt a b \<Longrightarrow> reaches pt b c \<Longrightarrow> reaches pt a c"
  by (simp add: reaches_def)

lemma reaches_put: "allowed pt m k c \<Longrightarrow> reaches pt m (AList.update k c m)"
  unfolding reaches_def put_step_def by blast

lemma reaches_induct:
  assumes "reaches pt m m'" and "I m"
    and "\<And>a k c. I a \<Longrightarrow> allowed pt a k c \<Longrightarrow> I (AList.update k c a)"
  shows "I m'"
  using assms(1) unfolding reaches_def
proof (induction rule: rtranclp_induct)
  case base
  then show ?case using assms(2) .
next
  case (step y z)
  then show ?case using assms(3) by (auto simp: put_step_def)
qed

lemma cand_step_reaches:
  assumes "cand_step pt pid conn (self_endpoint pid p conn) rpid i m = Inr m'"
    and "pt pid = Some (Some p)" and "conn \<in> set (Connections p)"
    and "is_transport (Type conn)" and "Peer conn \<noteq> []" and "pid \<noteq> rpid"
  shows "reaches pt m m'"
proof -
  from assms(1) obtain rp where rp: "pt rpid = Some (Some rp)" "i < length (Connections rp)"
    by (auto simp: cand_step_def split: option.splits if_splits)
  define rconn where "rconn = Connections rp ! i"
  have rin: "rconn \<in> set (Connections rp)" using rp(2) by (simp add: rconn_def)
  show ?thesis
  proof (cases "reciprocal conn rconn \<and> \<not> has_key m (pid, Descriptor conn, rpid, Descriptor rconn)
                \<and> \<not> has_key m (rpid, Descriptor rconn, pid, Descriptor conn)")
    case False
    then have "m' = m" using assms(1) rp
      by (auto simp: cand_step_def rconn_def Let_def split: if_splits)
    then show ?thesis by (simp add: reaches_refl)
  next
    case True
    let ?k = "(pid, Descriptor conn, rpid, Descriptor rconn)"
    let ?c = "\<lparr>c_ftype = Type conn, c_name = Name conn, c_self = self_endpoint pid p conn,
              c_peer = \<lparr>ep_pid = rpid, ep_fd = Descriptor rconn, ep_command = Exec rp,
                        ep_name = Peer conn\<rparr>\<rparr>"
    have "m' = AList.update ?k ?c m" using assms(1) rp True
      by (simp add: cand_step_def rconn_def Let_def self_endpoint_def)
    moreover have "put_peer pt m ?k ?c"
      unfolding put_peer_def using assms(2-6) rp(1) rin True by blast
    ultimately show ?thesis by (simp add: reaches_put allowed_def)
  qed
qed

lemma rpid_step_reaches:
  assumes "rpid_step pt epm key pid conn (self_endpoint pid p conn) rpid m = Inr m'"
    and "pt pid = Some (Some p)" and "conn \<in> set (Connections p)"
    and "is_transport (Type conn)" and "Peer conn \<noteq> []"
  shows "reaches pt m m'"
proof (cases "pid = rpid")
  case True
  then show ?thesis using assms(1) by (simp add: rpid_step_def reaches_refl)
next
  case False
  then have "foldE (cand_step pt pid conn (self_endpoint pid p conn) rpid) (epm_ix epm key rpid) m = Inr m'"
    using assms(1) by (simp add: rpid_step_def)
  then show ?thesis
  proof (rule foldE_rel)
    show "reaches pt a a" for a by (rule reaches_refl)
    show "reaches pt a c" if "reaches pt a b" "reaches pt b c" for a b c
      using that by (rule reaches_trans)
    show "reaches pt a b"
      if "cand_step pt pid conn (self_endpoint pid p conn) rpid x a = Inr b" for x a b
      using that assms(2-5) False by (rule cand_step_reaches)
  qed
qed

lemma conn_step_reaches:
  assumes "conn_step env pt epm pid p conn m = Inr m'"
    and "pt pid = Some (Some p)" and "conn \<in> set (Connections p)"
  shows "reaches pt m m'"
proof -
  consider (nul) "Type conn = ''NUL''"
    | (data) "Type conn = ''REG'' \<or> Type conn = ''PSXSHM''"
    | (kernel) "Type conn = ''systm''"
    | (trans) "is_transport (Type conn)"
    | (other) "Type conn \<noteq> ''NUL''" "Type conn \<noteq> ''REG''" "Type conn \<noteq> ''PSXSHM''"
        "Type conn \<noteq> ''systm''" "\<not> is_transport (Type conn)"
    by blast
  then show ?thesis
  proof cases
    case nul
    then show ?thesis using assms(1) by (simp add: conn_step_def reaches_refl)
  next
    case data
    then have "m' = AList.update (pid, Descriptor conn, MaxInt32, 0)
               \<lparr>c_ftype = Type conn, c_name = Name conn, c_self = self_endpoint pid p conn,
                c_peer = \<lparr>ep_pid = MaxInt32, ep_fd = 0, ep_command = [], ep_name = Name conn\<rparr>\<rparr> m"
      using assms(1) by (auto simp: conn_step_def Let_def self_endpoint_def)
    moreover have "put_data pt (pid, Descriptor conn, MaxInt32, 0)
               \<lparr>c_ftype = Type conn, c_name = Name conn, c_self = self_endpoint pid p conn,
                c_peer = \<lparr>ep_pid = MaxInt32, ep_fd = 0, ep_command = [], ep_name = Name conn\<rparr>\<rparr>"
      unfolding put_data_def using assms(2,3) data by blast
    ultimately show ?thesis by (simp add: reaches_put allowed_def)
  next
    case kernel
    then have "m' = AList.update (pid, Descriptor conn, 0, 0)
               \<lparr>c_ftype = Type conn, c_name = Name conn, c_self = self_endpoint pid p conn,
                c_peer = \<lparr>ep_pid = 0, ep_fd = 0, ep_command = Peer conn, ep_name = Name conn\<rparr>\<rparr> m"
      using assms(1) by (auto simp: conn_step_def Let_def self_endpoint_def)
    moreover have "put_kernel pt (pid, Descriptor conn, 0, 0)
               \<lparr>c_ftype = Type conn, c_name = Name conn, c_self = self_endpoint pid p conn,
                c_peer = \<lparr>ep_pid = 0, ep_fd = 0, ep_command = Peer conn, ep_name = Name conn\<rparr>\<rparr>"
      unfolding put_kernel_def using assms(2,3) kernel by blast
    ultimately show ?thesis by (simp add: reaches_put allowed_def)
  next
    case trans
    then have nt: "Type conn \<noteq> ''NUL''" "Type conn \<noteq> ''REG''" "Type conn \<noteq> ''PSXSHM''"
        "Type conn \<noteq> ''systm''"
      by (auto simp: is_transport_def)
    show ?thesis
    proof (cases "Peer conn = []")
      case True
      then show ?thesis using assms(1) nt trans by (simp add: conn_step_def Let_def reaches_refl)
    next
      case peer: False
      show ?thesis
      proof (cases "has_key epm (epm_key (Type conn) (Peer conn))")
        case True
        then have "foldE (rpid_step pt epm (epm_key (Type conn) (Peer conn)) pid conn
                      (self_endpoint pid p conn))
                    (rpids_of epm (epm_key (Type conn) (Peer conn))) m = Inr m'"
          using assms(1) nt trans peer by (simp add: conn_step_def Let_def self_endpoint_def)
        then show ?thesis
        proof (rule foldE_rel)
          show "reaches pt a a" for a by (rule reaches_refl)
          show "reaches pt a c" if "reaches pt a b" "reaches pt b c" for a b c
            using that by (rule reaches_trans)
          show "reaches pt a b"
            if "rpid_step pt epm (epm_key (Type conn) (Peer conn)) pid conn
                  (self_endpoint pid p conn) x a = Inr b" for x a b
            using that assms(2,3) trans peer by (rule rpid_step_reaches)
        qed
      next
        case False
        show ?thesis
        proof (cases "m' = m")
          case True
          then show ?thesis by (simp add: reaches_refl)
        next
          case ne: False
          define port where "port = snd (case SplitHostPort env (Peer conn) of
                           None \<Rightarrow> ([], []) | Some x \<Rightarrow> x)"
          let ?k = "(- 1, - 1, pid, Descriptor conn)"
          let ?c = "\<lparr>c_ftype = Type conn, c_name = Name conn,
                         c_self = \<lparr>ep_pid = - 1, ep_fd = - 1, ep_command = port,
                                   ep_name = Peer conn\<rparr>,
                         c_peer = self_endpoint pid p conn\<rparr>"
          from ne assms(1) nt trans peer False
          have tu: "Type conn = ''TCP'' \<or> Type conn = ''UDP''" and m': "m' = AList.update ?k ?c m"
            by (auto simp: conn_step_def Let_def self_endpoint_def port_def split: if_splits)
          have "put_host pt ?k ?c"
            unfolding put_host_def using assms(2,3) tu peer by blast
          then show ?thesis using m' by (simp add: reaches_put allowed_def)
        qed
      qed
    qed
  next
    case other
    then show ?thesis using assms(1) by (simp add: conn_step_def Let_def reaches_refl)
  qed
qed

lemma proc_step_reaches:
  assumes "proc_step env pt epm pid m = Inr m'"
  shows "reaches pt m m'"
proof -
  from assms obtain p pp where p: "pt pid = Some (Some p)" and pp: "pt (Ppid p) = Some (Some pp)"
    and f: "foldE (conn_step env pt epm pid p) (Connections p)
              (AList.update (Ppid p, - 1, pid, - 1) (parent_connection (Ppid p) pp pid p) m) = Inr m'"
    by (auto simp: proc_step_def Let_def split: option.splits)
  have "put_parent pt (Ppid p, - 1, pid, - 1) (parent_connection (Ppid p) pp pid p)"
    unfolding put_parent_def using p pp by blast
  then have "reaches pt m (AList.update (Ppid p, - 1, pid, - 1) (parent_connection (Ppid p) pp pid p) m)"
    by (simp add: reaches_put allowed_def)
  moreover have "reaches pt (AList.update (Ppid p, - 1, pid, - 1) (parent_connection (Ppid p) pp pid p) m) m'"
    using f
  proof (rule foldE_rel)
    show "reaches pt a a" for a by (rule reaches_refl)
    show "reaches pt a c" if "reaches pt a b" "reaches pt b c" for a b c
      using that by (rule reaches_trans)
    show "reaches pt a b"
      if "x \<in> set (Connections p)" "conn_step env pt epm pid p x a = Inr b" for x a b
      using that(2) p that(1) by (rule conn_step_reaches)
  qed
  ultimately show ?thesis by (rule reaches_trans)
qed

lemma correlate_reaches:
  assumes "correlate env ord1 ord2 pt = Inr connm"
  shows "reaches pt [] connm"
proof -
  from assms obtain epm where "foldE (proc_step env pt epm) ord2 [] = Inr connm"
    by (auto simp: correlate_def split: sum.splits)
  then show ?thesis
  proof (rule foldE_rel)
    show "reaches pt a a" for a by (rule reaches_refl)
    show "reaches pt a c" if "reaches pt a b" "reaches pt b c" for a b c
      using that by (rule reaches_trans)
    show "reaches pt a b" if "proc_step env pt epm x a = Inr b" for x a b
      using that by (rule proc_step_reaches)
  qed
qed

section \<open>Keys, sorting and the output list\<close>

subsection \<open>Keys of the connection map\<close>

lemma has_key_update: "has_key (AList.update k c m) k' = (k' = k \<or> has_key m k')"
  by (simp add: has_key_def update_conv')

lemma has_key_set: "has_key m k = (k \<in> set (map fst m))"
  by (simp add: has_key_def map_of_eq_None_iff)

lemma reaches_mono: "reaches pt m m' \<Longrightarrow> has_key m k \<Longrightarrow> has_key m' k"
  by (erule reaches_induct) (simp_all add: has_key_update)

lemma reaches_distinct: "reaches pt m m' \<Longrightarrow> distinct (map fst m) \<Longrightarrow> distinct (map fst m')"
  by (erule reaches_induct) (simp_all add: distinct_update)

lemma allowed_conn_key: "allowed pt m k c \<Longrightarrow> conn_key c = k"
  by (auto simp: allowed_def put_parent_def put_data_def put_kernel_def put_host_def put_peer_def
      conn_key_def parent_connection_def self_endpoint_def)

lemma reaches_keyed: "reaches pt m m' \<Longrightarrow> keyed m \<Longrightarrow> keyed m'"
  by (erule reaches_induct) (auto simp: keyed_def update_conv' allowed_conn_key)

lemma keyed_lookup:
  assumes "keyed m" and "k \<in> set (map fst m)"
  shows "conn_key (lookup_conn m k) = k"
proof -
  from assms(2) obtain c where "map_of m k = Some c"
    by (metis has_key_def has_key_set not_None_eq)
  then show ?thesis
    using assms(1) [unfolded keyed_def, rule_format, of k c] by (simp add: lookup_conn_def)
qed

subsection \<open>The sort\<close>

lemma key_less_irrefl: "\<not> key_less k k"
  by (cases k) simp

lemma key_less_trans: "key_less a b \<Longrightarrow> key_less b c \<Longrightarrow> key_less a c"
  by (cases a; cases b; cases c) auto

lemma key_less_total: "a \<noteq> b \<Longrightarrow> key_less a b \<or> key_less b a"
  by (cases a; cases b) auto

lemma set_insert_key: "set (insert_key k ks) = insert k (set ks)"
  by (induction ks) auto

lemma set_sort_keys: "set (sort_keys ks) = set ks"
  by (induction ks) (simp_all add: set_insert_key)

lemma distinct_insert_key: "distinct ks \<Longrightarrow> k \<notin> set ks \<Longrightarrow> distinct (insert_key k ks)"
  by (induction ks) (auto simp: set_insert_key)

lemma distinct_sort_keys: "distinct ks \<Longrightarrow> distinct (sort_keys ks)"
  by (induction ks) (simp_all add: distinct_insert_key set_sort_keys)

lemma sorted_insert_key:
  "sorted_wrt key_less ks \<Longrightarrow> k \<notin> set ks \<Longrightarrow> sorted_wrt key_less (insert_key k ks)"
proof (induction ks)
  case Nil
  then show ?case by simp
next
  case (Cons x xs)
  show ?case
  proof (cases "key_less x k")
    case True
    then show ?thesis using Cons by (auto simp: set_insert_key)
  next
    case False
    then have kx: "key_less k x" using Cons.prems(2) key_less_total [of k x] by auto
    then have "\<forall>y \<in> set xs. key_less k y"
      using Cons.prems(1) by (auto intro: key_less_trans)
    then show ?thesis using False kx Cons.prems(1) by simp
  qed
qed

lemma sorted_sort_keys: "distinct ks \<Longrightarrow> sorted_wrt key_less (sort_keys ks)"
  by (induction ks) (simp_all add: sorted_insert_key set_sort_keys)

lemma length_insert_key: "length (insert_key k ks) = Suc (length ks)"
  by (induction ks) auto

lemma length_sort_keys: "length (sort_keys ks) = length ks"
  by (induction ks) (simp_all add: length_insert_key)

text \<open>
  A list sorted strictly by \<open>key_less\<close> is determined by its elements, so the order in
  which \<open>range connm\<close> hands the keys to the sort does not show in the result.
\<close>

lemma sorted_key_less_unique:
  "sorted_wrt key_less xs \<Longrightarrow> sorted_wrt key_less ys \<Longrightarrow> set xs = set ys \<Longrightarrow> xs = ys"
proof (induction xs arbitrary: ys)
  case Nil
  then show ?case by simp
next
  case (Cons x xs)
  from Cons.prems(3) obtain y ys' where ys: "ys = y # ys'" by (cases ys) auto
  have "x = y"
  proof (rule ccontr)
    assume ne: "x \<noteq> y"
    have "x \<in> set ys'" using Cons.prems(3) ys ne by auto
    then have 1: "key_less y x" using Cons.prems(2) ys by simp
    have "y \<in> set xs" using Cons.prems(3) ys ne by auto
    then have 2: "key_less x y" using Cons.prems(1) by simp
    from 1 2 show False using key_less_trans key_less_irrefl by blast
  qed
  moreover have "x \<notin> set xs" using Cons.prems(1) key_less_irrefl [of x] by auto
  moreover have "y \<notin> set ys'" using Cons.prems(2) ys key_less_irrefl [of y] by auto
  ultimately have "set xs = set ys'" using Cons.prems(3) ys by auto
  then have "xs = ys'" using Cons.IH [of ys'] Cons.prems(1,2) ys by simp
  then show ?case using \<open>x = y\<close> ys by simp
qed

lemma sort_keys_order_free:
  assumes "distinct ks" and "distinct ks'" and "set ks = set ks'"
  shows "sort_keys ks = sort_keys ks'"
  by (rule sorted_key_less_unique) (simp_all add: sorted_sort_keys set_sort_keys assms)

subsection \<open>The output list\<close>

lemma correlate_distinct: "correlate env ord1 ord2 pt = Inr m \<Longrightarrow> distinct (map fst m)"
  using correlate_reaches reaches_distinct by fastforce

lemma correlate_keyed: "correlate env ord1 ord2 pt = Inr m \<Longrightarrow> keyed m"
  using correlate_reaches [of env ord1 ord2 pt m] reaches_keyed [of pt "[]" m]
  by (simp add: keyed_def)

lemma output_keys:
  assumes "correlate env ord1 ord2 pt = Inr m"
  shows "map conn_key (connections env ord1 ord2 pt) = sort_keys (map fst m)"
proof -
  have "map (\<lambda>k. conn_key (lookup_conn m k)) (sort_keys (map fst m)) = sort_keys (map fst m)"
    by (rule map_idI) (simp add: keyed_lookup [OF correlate_keyed [OF assms]] set_sort_keys)
  then have "map conn_key (map (lookup_conn m) (sort_keys (map fst m))) = sort_keys (map fst m)"
    by (simp add: comp_def)
  then show ?thesis using assms by (simp add: connections_def)
qed

lemma output_sorted:
  "sorted_wrt key_less (map conn_key (connections env ord1 ord2 pt))"
proof (cases "correlate env ord1 ord2 pt")
  case (Inl e)
  then show ?thesis by (simp add: connections_def)
next
  case (Inr m)
  then show ?thesis by (simp add: output_keys sorted_sort_keys correlate_distinct)
qed


section \<open>Completion of the pass and the order of the first loop\<close>

subsection \<open>The pass completes on a complete table\<close>

lemma build_epm_total:
  assumes "complete_table pt" and "set ord \<subseteq> dom pt"
  shows "\<exists>epm. build_epm ord pt = Inr epm"
  unfolding build_epm_def
  by (rule epm_foldE_total) (use assms in \<open>fastforce simp: complete_table_def\<close>)

lemma build_epm_entry:
  assumes "build_epm ord pt = Inr epm" and "distinct ord" and "i \<in> set (epm_ix epm key rpid)"
  shows "\<exists>rp. pt rpid = Some (Some rp) \<and> rpid \<in> set ord \<and> i < length (Connections rp) \<and>
              indexed key (Connections rp ! i)"
proof -
  have in_ord: "rpid \<in> set ord"
  proof (rule ccontr)
    assume "rpid \<notin> set ord"
    then have "epm_ix epm key rpid = []" by (rule build_epm_ix_out [OF assms(1,2)])
    then show False using assms(3) by simp
  qed
  then obtain rp where rp: "pt rpid = Some (Some rp)"
    using epm_foldE_nonnil [OF assms(1) [unfolded build_epm_def]] by blast
  have "i \<in> set (positions rp key)"
    using build_epm_ix [OF assms(1,2) in_ord rp, of key] assms(3) by simp
  then show ?thesis using rp in_ord by (auto simp: positions_set)
qed

lemma cand_step_total:
  assumes "build_epm ord pt = Inr epm" and "distinct ord" and "i \<in> set (epm_ix epm key rpid)"
  shows "\<exists>m'. cand_step pt pid conn self rpid i m = Inr m'"
  using build_epm_entry [OF assms] by (auto simp: cand_step_def Let_def)

lemma rpid_step_total:
  assumes "build_epm ord pt = Inr epm" and "distinct ord"
  shows "\<exists>m'. rpid_step pt epm key pid conn self rpid m = Inr m'"
proof (cases "pid = rpid")
  case True
  then show ?thesis by (simp add: rpid_step_def)
next
  case False
  have "\<exists>s'. foldE (cand_step pt pid conn self rpid) (epm_ix epm key rpid) m = Inr s' \<and> True"
    by (rule foldE_total) (use cand_step_total [OF assms] in auto)
  then show ?thesis using False by (simp add: rpid_step_def)
qed

lemma conn_step_total:
  assumes "build_epm ord pt = Inr epm" and "distinct ord"
  shows "\<exists>m'. conn_step env pt epm pid p conn m = Inr m'"
proof -
  have "\<exists>s'. foldE (rpid_step pt epm key pid conn self) rs m = Inr s' \<and> True" for key self rs
    by (rule foldE_total) (use rpid_step_total [OF assms] in auto)
  then show ?thesis by (simp add: conn_step_def Let_def)
qed

lemma proc_step_total:
  assumes "build_epm ord pt = Inr epm" and "distinct ord"
    and "pt pid = Some (Some p)" and "pt (Ppid p) = Some (Some pp)"
  shows "\<exists>m'. proc_step env pt epm pid m = Inr m'"
proof -
  have "\<exists>s'. foldE (conn_step env pt epm pid p) (Connections p) m0 = Inr s' \<and> True" for m0
    by (rule foldE_total) (use conn_step_total [OF assms(1,2)] in auto)
  then show ?thesis using assms(3,4) by (simp add: proc_step_def Let_def)
qed

lemma correlate_total:
  assumes "complete_table pt" and "visits ord1 pt" and "set ord2 \<subseteq> dom pt"
  shows "\<exists>m. correlate env ord1 ord2 pt = Inr m"
proof -
  from assms(2) have d: "distinct ord1" and s: "set ord1 \<subseteq> dom pt" by (auto simp: visits_def)
  from build_epm_total [OF assms(1) s] obtain epm where epm: "build_epm ord1 pt = Inr epm" ..
  have "\<exists>s'. foldE (proc_step env pt epm) ord2 [] = Inr s' \<and> True"
  proof (rule foldE_total)
    fix x a assume "x \<in> set ord2"
    then obtain p pp where "pt x = Some (Some p)" "pt (Ppid p) = Some (Some pp)"
      using assms(1,3) unfolding complete_table_def by blast
    then show "\<exists>b. proc_step env pt epm x a = Inr b \<and> True"
      using proc_step_total [OF epm d] by simp
  qed simp
  then show ?thesis using epm by (simp add: correlate_def)
qed

subsection \<open>The order of the first loop does not show\<close>

lemma epm_inv_has: "epm_inv epm \<Longrightarrow> has_key epm key = (\<exists>pid. epm_ix epm key pid \<noteq> [])"
  unfolding epm_inv_def by (metis all_not_in_conv image_is_empty set_empty)

lemma epm_inv_rpids:
  "epm_inv epm \<Longrightarrow> set (rpids_of epm key) = {pid. epm_ix epm key pid \<noteq> []}"
  unfolding epm_inv_def rpids_of_def by (simp add: set_eq_iff)

lemma rpids_sorted: "sorted (rpids_of epm key)"
  by (simp add: rpids_of_def)

lemma rpids_distinct: "epm_inv epm \<Longrightarrow> distinct (rpids_of epm key)"
  by (simp add: rpids_of_def epm_inv_def)

lemma build_epm_same:
  assumes "build_epm ord pt = Inr epm" and "build_epm ord' pt = Inr epm'"
    and "distinct ord" and "distinct ord'" and "set ord = set ord'"
  shows "epm_ix epm key pid = epm_ix epm' key pid"
    and "has_key epm key = has_key epm' key"
    and "rpids_of epm key = rpids_of epm' key"
proof -
  have ix: "epm_ix epm k q = epm_ix epm' k q" for k q
    using epm_foldE_ix [OF assms(1) [unfolded build_epm_def] assms(3), of k q]
      epm_foldE_ix [OF assms(2) [unfolded build_epm_def] assms(4), of k q] assms(5)
    by simp
  show "epm_ix epm key pid = epm_ix epm' key pid" by (rule ix)
  show "has_key epm key = has_key epm' key"
    by (simp add: epm_inv_has build_epm_inv [OF assms(1)] build_epm_inv [OF assms(2)] ix)
  have "set (rpids_of epm key) = set (rpids_of epm' key)"
    by (simp add: epm_inv_rpids build_epm_inv [OF assms(1)] build_epm_inv [OF assms(2)] ix)
  then show "rpids_of epm key = rpids_of epm' key"
    by (intro sorted_distinct_set_unique rpids_sorted rpids_distinct
        build_epm_inv [OF assms(1)] build_epm_inv [OF assms(2)])
qed

lemma proc_step_same:
  assumes "\<And>key pid. epm_ix epm key pid = epm_ix epm' key pid"
    and "\<And>key. has_key epm key = has_key epm' key"
    and "\<And>key. rpids_of epm key = rpids_of epm' key"
  shows "proc_step env pt epm = proc_step env pt epm'"
proof -
  have r: "rpid_step pt epm = rpid_step pt epm'"
    by (intro ext) (simp add: rpid_step_def assms(1))
  have c: "conn_step env pt epm = conn_step env pt epm'"
    by (intro ext) (simp add: conn_step_def r assms(2,3) cong: if_cong)
  show ?thesis by (intro ext) (simp add: proc_step_def c cong: option.case_cong)
qed

lemma connections_first_order:
  assumes "distinct ord1" and "distinct ord1'" and "set ord1 = set ord1'"
  shows "connections env ord1 ord2 pt = connections env ord1' ord2 pt"
proof (cases "build_epm ord1 pt")
  case (Inl e)
  then obtain pid where pid: "pid \<in> set ord1" "\<not> (\<exists>p. pt pid = Some (Some p))"
    using epm_foldE_total [of ord1 pt "[]"] by (auto simp: build_epm_def)
  have "\<exists>e'. build_epm ord1' pt = Inl e'"
  proof (cases "build_epm ord1' pt")
    case (Inr epm')
    then show ?thesis
      using epm_foldE_nonnil [of pt ord1' "[]" epm' pid] pid assms(3) by (simp add: build_epm_def)
  qed simp
  then show ?thesis using Inl by (auto simp: connections_def correlate_def)
next
  case (Inr epm)
  then have "\<forall>pid \<in> set ord1'. \<exists>p. pt pid = Some (Some p)"
    using epm_foldE_nonnil [of pt ord1 "[]" epm] assms(3) by (simp add: build_epm_def)
  then obtain epm' where epm': "build_epm ord1' pt = Inr epm'"
    using epm_foldE_total [of ord1' pt "[]"] by (auto simp: build_epm_def)
  have "proc_step env pt epm = proc_step env pt epm'"
    by (rule proc_step_same) (rule build_epm_same [OF Inr epm' assms])+
  then show ?thesis using Inr epm' by (simp add: connections_def correlate_def)
qed

section \<open>Order of the output\<close>

text \<open>
  Claim C7, as the code has it. The output of every pass is strictly sorted by self process
  id, then peer process id, then self descriptor, then peer descriptor, and it does not
  depend on the order in which the index-building loop visits the table: two passes whose
  main loops visit the processes in the same order return the same list. (The order in which
  \<open>range connm\<close> yields the keys does not show either, by \<open>sort_keys_order_free\<close>.)
  The claim that any two passes agree fails: which of two reciprocal descriptors becomes the
  self endpoint follows the order of the main loop, as the example after the theorem shows.
\<close>

theorem output_sorted_first_order_free:
  assumes "distinct ord1" and "distinct ord1'" and "set ord1 = set ord1'"
  shows "connections env ord1 ord2 pt = connections env ord1' ord2 pt \<and>
         sorted_wrt key_less (map conn_key (connections env ord1 ord2 pt))"
  using connections_first_order [OF assms] output_sorted by simp

theorem output_sorted_first_order_free_witness:
  "distinct [0, 1, 10, 20 :: int] \<and> distinct [20, 10, 1, 0 :: int] \<and>
   set [0, 1, 10, 20 :: int] = set [20, 10, 1, 0] \<and>
   connections ex_env [0, 1, 10, 20] [0, 1, 10, 20] pt_pair
     = connections ex_env [20, 10, 1, 0] [0, 1, 10, 20] pt_pair \<and>
   sorted_wrt key_less (map conn_key (connections ex_env [0, 1, 10, 20] [0, 1, 10, 20] pt_pair))"
proof -
  have a: "distinct [0, 1, 10, 20 :: int]" by simp
  have b: "distinct [20, 10, 1, 0 :: int]" by simp
  have c: "set [0, 1, 10, 20 :: int] = set [20, 10, 1, 0]" by auto
  note t = output_sorted_first_order_free [OF a b c, of ex_env "[0, 1, 10, 20]" pt_pair]
  show ?thesis by (intro conjI a b c conjunct1 [OF t] conjunct2 [OF t])
qed

text \<open>
  The client and server of \<open>pt_pair\<close>: visited in the order 10, 20 the pair is recorded
  from 10 to 20, in the order 20, 10 from 20 to 10, and the two outputs differ.
\<close>

theorem direction_follows_visit_order:
  "map conn_key (connections ex_env [0, 1, 10, 20] [0, 1, 10, 20] pt_pair)
     = [(0, - 1, 0, - 1), (0, - 1, 1, - 1), (1, - 1, 10, - 1), (1, - 1, 20, - 1), (10, 3, 20, 4)] \<and>
   map conn_key (connections ex_env [0, 1, 10, 20] [0, 1, 20, 10] pt_pair)
     = [(0, - 1, 0, - 1), (0, - 1, 1, - 1), (1, - 1, 10, - 1), (1, - 1, 20, - 1), (20, 4, 10, 3)] \<and>
   connections ex_env [0, 1, 10, 20] [0, 1, 10, 20] pt_pair
     \<noteq> connections ex_env [0, 1, 10, 20] [0, 1, 20, 10] pt_pair"
proof -
  have a: "map conn_key (connections ex_env [0, 1, 10, 20] [0, 1, 10, 20] pt_pair)
     = [(0, - 1, 0, - 1), (0, - 1, 1, - 1), (1, - 1, 10, - 1), (1, - 1, 20, - 1), (10, 3, 20, 4)]"
    by code_simp
  have b: "map conn_key (connections ex_env [0, 1, 10, 20] [0, 1, 20, 10] pt_pair)
     = [(0, - 1, 0, - 1), (0, - 1, 1, - 1), (1, - 1, 10, - 1), (1, - 1, 20, - 1), (20, 4, 10, 3)]"
    by code_simp
  have "map conn_key (connections ex_env [0, 1, 10, 20] [0, 1, 10, 20] pt_pair)
     \<noteq> map conn_key (connections ex_env [0, 1, 10, 20] [0, 1, 20, 10] pt_pair)"
    unfolding a b by simp
  then have "connections ex_env [0, 1, 10, 20] [0, 1, 10, 20] pt_pair
     \<noteq> connections ex_env [0, 1, 10, 20] [0, 1, 20, 10] pt_pair"
    by auto
  with a b show ?thesis by simp
qed

section \<open>Contents of the endpoint index\<close>

lemma epm_key_inject:
  assumes "is_transport t" and "is_transport t'" and "epm_key t s = epm_key t' s'"
  shows "t = t' \<and> s = s'"
proof -
  have "t = t'"
    using assms unfolding is_transport_def epm_key_def
    by (elim disjE) simp_all
  then show ?thesis using assms(3) by (simp add: epm_key_def)
qed

lemma build_epm_has:
  assumes "build_epm ord pt = Inr epm" and "visits ord pt"
  shows "has_key epm key =
           (\<exists>pid p c. pt pid = Some (Some p) \<and> c \<in> set (Connections p) \<and> indexed key c)"
proof -
  from assms(2) have d: "distinct ord" and s: "set ord = dom pt" by (auto simp: visits_def)
  have "has_key epm key = (\<exists>pid. epm_ix epm key pid \<noteq> [])"
    by (rule epm_inv_has [OF build_epm_inv [OF assms(1)]])
  also have "\<dots> = (\<exists>pid p c. pt pid = Some (Some p) \<and> c \<in> set (Connections p) \<and> indexed key c)"
  proof
    assume "\<exists>pid. epm_ix epm key pid \<noteq> []"
    then obtain pid i where "i \<in> set (epm_ix epm key pid)"
      by (metis last_in_set)
    from build_epm_entry [OF assms(1) d this] show
      "\<exists>pid p c. pt pid = Some (Some p) \<and> c \<in> set (Connections p) \<and> indexed key c"
      by (metis nth_mem)
  next
    assume "\<exists>pid p c. pt pid = Some (Some p) \<and> c \<in> set (Connections p) \<and> indexed key c"
    then obtain pid p c where p: "pt pid = Some (Some p)" and c: "c \<in> set (Connections p)"
      and k: "indexed key c" by blast
    from c obtain i where i: "i < length (Connections p)" "Connections p ! i = c"
      by (auto simp: in_set_conv_nth)
    have "pid \<in> set ord" using p s by (auto simp: dom_def)
    then have "epm_ix epm key pid = positions p key"
      by (rule build_epm_ix [OF assms(1) d _ p])
    moreover have "i \<in> set (positions p key)" using i k by (simp add: positions_set)
    ultimately show "\<exists>pid. epm_ix epm key pid \<noteq> []"
      by (metis empty_iff list.set(1))
  qed
  finally show ?thesis .
qed

text \<open>
  Claim C6, as the code has it. Over a table without nil entries the first loop builds an
  index that has a key exactly for the descriptors of a transport type (FIFO, PIPE, TCP, UDP,
  unix) with a non-empty local endpoint, the key being type, \<open>": "\<close> and local endpoint (two
  such descriptors share a key only if they agree on both); under a key, each process has the
  ascending list of the positions of its descriptors with that key, and nothing else; the
  empty table gives the empty index. There is no further entry for named unix-domain
  sockets, as the example after the theorem shows.
\<close>

theorem index_contents:
  assumes "visits ord pt" and "\<forall>pid \<in> dom pt. \<exists>p. pt pid = Some (Some p)"
  shows "\<exists>epm. build_epm ord pt = Inr epm \<and>
           (\<forall>key. has_key epm key =
              (\<exists>pid p c. pt pid = Some (Some p) \<and> c \<in> set (Connections p) \<and>
                 Self c \<noteq> [] \<and> is_transport (Type c) \<and> key = epm_key (Type c) (Self c))) \<and>
           (\<forall>key pid p. pt pid = Some (Some p) \<longrightarrow>
              sorted (epm_ix epm key pid) \<and> distinct (epm_ix epm key pid) \<and>
              set (epm_ix epm key pid) =
                {i. i < length (Connections p) \<and> Self (Connections p ! i) \<noteq> [] \<and>
                    is_transport (Type (Connections p ! i)) \<and>
                    key = epm_key (Type (Connections p ! i)) (Self (Connections p ! i))}) \<and>
           (\<forall>key pid. pid \<notin> dom pt \<longrightarrow> epm_ix epm key pid = []) \<and>
           (\<forall>t s t' s'. is_transport t \<and> is_transport t' \<and> epm_key t s = epm_key t' s'
              \<longrightarrow> t = t' \<and> s = s') \<and>
           build_epm [] Map.empty = Inr []"
proof -
  from assms(1) have d: "distinct ord" and s: "set ord = dom pt" by (auto simp: visits_def)
  have "\<forall>pid \<in> set ord. \<exists>p. pt pid = Some (Some p)" using assms(2) s by simp
  then obtain epm where epm: "build_epm ord pt = Inr epm"
    using epm_foldE_total [of ord pt "[]"] by (auto simp: build_epm_def)
  have 1: "has_key epm key =
              (\<exists>pid p c. pt pid = Some (Some p) \<and> c \<in> set (Connections p) \<and>
                 Self c \<noteq> [] \<and> is_transport (Type c) \<and> key = epm_key (Type c) (Self c))" for key
    unfolding build_epm_has [OF epm assms(1)] indexed_def by auto
  have 2: "sorted (epm_ix epm key pid) \<and> distinct (epm_ix epm key pid) \<and>
              set (epm_ix epm key pid) =
                {i. i < length (Connections p) \<and> Self (Connections p ! i) \<noteq> [] \<and>
                    is_transport (Type (Connections p ! i)) \<and>
                    key = epm_key (Type (Connections p ! i)) (Self (Connections p ! i))}"
    if "pt pid = Some (Some p)" for key pid p
  proof -
    have "pid \<in> set ord" using that s by (auto simp: dom_def)
    then have "epm_ix epm key pid = positions p key"
      by (rule build_epm_ix [OF epm d _ that])
    then show ?thesis
      by (auto simp: positions_sorted positions_set indexed_def)
  qed
  have 3: "epm_ix epm key pid = []" if "pid \<notin> dom pt" for key pid
    using build_epm_ix_out [OF epm d] that s by simp
  have 4: "build_epm [] Map.empty = Inr []" by (simp add: build_epm_def)
  show ?thesis
  proof (intro exI [of _ epm] conjI allI impI)
    show "build_epm ord pt = Inr epm" by (rule epm)
    show "t = t'" "s = s'"
      if "is_transport t \<and> is_transport t' \<and> epm_key t s = epm_key t' s'" for t s t' s'
      using epm_key_inject [of t t' s s'] that by simp_all
  qed (use 1 2 3 4 in \<open>simp_all\<close>)
qed

theorem index_contents_witness:
  "visits [0, 1, 10, 20] pt_pair \<and>
   (\<exists>epm. build_epm [0, 1, 10, 20] pt_pair = Inr epm \<and>
           (\<forall>key. has_key epm key =
              (\<exists>pid p c. pt_pair pid = Some (Some p) \<and> c \<in> set (Connections p) \<and>
                 Self c \<noteq> [] \<and> is_transport (Type c) \<and> key = epm_key (Type c) (Self c))) \<and>
           (\<forall>key pid p. pt_pair pid = Some (Some p) \<longrightarrow>
              sorted (epm_ix epm key pid) \<and> distinct (epm_ix epm key pid) \<and>
              set (epm_ix epm key pid) =
                {i. i < length (Connections p) \<and> Self (Connections p ! i) \<noteq> [] \<and>
                    is_transport (Type (Connections p ! i)) \<and>
                    key = epm_key (Type (Connections p ! i)) (Self (Connections p ! i))}) \<and>
           (\<forall>key pid. pid \<notin> dom pt_pair \<longrightarrow> epm_ix epm key pid = []) \<and>
           (\<forall>t s t' s'. is_transport t \<and> is_transport t' \<and> epm_key t s = epm_key t' s'
              \<longrightarrow> t = t' \<and> s = s') \<and>
           build_epm [] Map.empty = Inr [])"
proof -
  have a: "visits [0, 1, 10, 20] pt_pair" by (auto simp: visits_def pt_pair_def)
  have b: "\<forall>pid \<in> dom pt_pair. \<exists>p. pt_pair pid = Some (Some p)" by (simp add: pt_pair_def)
  show ?thesis by (intro conjI a index_contents [OF a b])
qed

text \<open>The index of \<open>pt_named\<close>, whose only descriptor is a named unix socket, has one entry.\<close>

theorem named_socket_single_entry:
  "build_epm [0, 1, 30] pt_named = Inr [(''unix: 0x1a2b'', [(30, [0])])]"
  by code_simp

section \<open>Listeners\<close>

lemma output_set:
  assumes "correlate env ord1 ord2 pt = Inr m" and "c \<in> set (connections env ord1 ord2 pt)"
  shows "\<exists>k. map_of m k = Some c"
proof -
  have "set (connections env ord1 ord2 pt) = lookup_conn m ` set (sort_keys (map fst m))"
    using assms(1) by (simp add: connections_def)
  then obtain k where k: "k \<in> set (map fst m)" and c: "c = lookup_conn m k"
    using assms(2) unfolding set_sort_keys by blast
  from k obtain c' where "map_of m k = Some c'"
    by (metis has_key_def has_key_set not_None_eq)
  then have "map_of m k = Some c" using c by (simp add: lookup_conn_def)
  then show ?thesis ..
qed

lemma reaches_values:
  assumes "reaches pt m m'" and "\<forall>k c. map_of m k = Some c \<longrightarrow> Q c"
    and "\<And>a k c. allowed pt a k c \<Longrightarrow> Q c"
  shows "\<forall>k c. map_of m' k = Some c \<longrightarrow> Q c"
  using assms(1,2)
  by (rule reaches_induct) (auto simp: update_conv' assms(3))

lemma output_values:
  assumes "\<And>a k c. allowed pt a k c \<Longrightarrow> Q c"
  shows "\<forall>c \<in> set (connections env ord1 ord2 pt). Q c"
proof (cases "correlate env ord1 ord2 pt")
  case (Inl e)
  then show ?thesis by (simp add: connections_def)
next
  case (Inr m)
  have "\<forall>k c. map_of m k = Some c \<longrightarrow> Q c"
    by (rule reaches_values [OF correlate_reaches [OF Inr]]) (simp_all add: assms)
  then show ?thesis using output_set [OF Inr] by blast
qed

lemma transport_not_other:
  "is_transport t \<Longrightarrow> t \<noteq> ''NUL'' \<and> t \<noteq> ''REG'' \<and> t \<noteq> ''PSXSHM'' \<and> t \<noteq> ''systm''"
  by (auto simp: is_transport_def)

lemma listener_step:
  assumes "is_transport (Type d)" and "Peer d = []"
  shows "conn_step env pt epm pid p d m = Inr m"
  using assms transport_not_other [OF assms(1)] by (simp add: conn_step_def Let_def)

lemma allowed_not_listener:
  assumes "allowed pt a k c" and "pt P = Some (Some p)" and "n \<noteq> - 1"
    and "\<forall>d' \<in> set (Connections p). Descriptor d' = n \<longrightarrow> is_transport (Type d') \<and> Peer d' = []"
  shows "\<not> (ep_pid (c_self c) = P \<and> ep_fd (c_self c) = n)"
proof -
  from assms(1) consider "put_parent pt k c" | "put_data pt k c" | "put_kernel pt k c"
    | "put_host pt k c" | "put_peer pt a k c"
    by (auto simp: allowed_def)
  then show ?thesis
  proof cases
    case 1
    then show ?thesis using assms(3) by (auto simp: put_parent_def parent_connection_def)
  next
    case 2
    then show ?thesis using assms(2,4) transport_not_other
      by (fastforce simp: put_data_def self_endpoint_def)
  next
    case 3
    then show ?thesis using assms(2,4) transport_not_other
      by (fastforce simp: put_kernel_def self_endpoint_def)
  next
    case 4
    then show ?thesis using assms(3) by (auto simp: put_host_def)
  next
    case 5
    then show ?thesis using assms(2,4)
      by (fastforce simp: put_peer_def self_endpoint_def)
  qed
qed

text \<open>
  Claim C4. A descriptor of type FIFO, PIPE, TCP, UDP or unix with an empty peer string
  leaves the connection map as it is when the loop reaches it, and no connection of the
  output has it as self endpoint: none has the owner's process id together with the
  descriptor's number as self. Endpoints carry the descriptor number, so the statement is
  made for a number under which the process holds listeners only (the case whenever
  descriptor numbers are unique within the process); the number - 1 is set aside for the
  synthetic endpoints.
\<close>

theorem listener_discarded:
  assumes "pt P = Some (Some p)" and "d \<in> set (Connections p)"
    and "is_transport (Type d)" and "Peer d = []" and "Descriptor d \<noteq> - 1"
    and "\<forall>d' \<in> set (Connections p). Descriptor d' = Descriptor d
           \<longrightarrow> is_transport (Type d') \<and> Peer d' = []"
  shows "(\<forall>epm m. conn_step env pt epm P p d m = Inr m) \<and>
         (\<forall>c \<in> set (connections env ord1 ord2 pt).
            \<not> (ep_pid (c_self c) = P \<and> ep_fd (c_self c) = Descriptor d))"
proof
  show "\<forall>epm m. conn_step env pt epm P p d m = Inr m"
    using listener_step [OF assms(3,4)] by simp
  show "\<forall>c \<in> set (connections env ord1 ord2 pt).
            \<not> (ep_pid (c_self c) = P \<and> ep_fd (c_self c) = Descriptor d)"
    by (rule output_values) (rule allowed_not_listener [where pt = pt and P = P, OF _ assms(1,5,6)])
qed

theorem listener_discarded_witness:
  "pt_listen 40 = Some (Some proc_httpd) \<and> desc_listen \<in> set (Connections proc_httpd) \<and>
   is_transport (Type desc_listen) \<and> Peer desc_listen = [] \<and> Descriptor desc_listen \<noteq> - 1 \<and>
   conn_step ex_env pt_listen [] 40 proc_httpd desc_listen [] = Inr [] \<and>
   filter (\<lambda>c. ep_pid (c_self c) = 40 \<and> ep_fd (c_self c) = Descriptor desc_listen)
     (connections ex_env [0, 1, 40] [0, 1, 40] pt_listen) = []"
proof -
  have a: "pt_listen 40 = Some (Some proc_httpd)" by (simp add: pt_listen_def)
  have b: "desc_listen \<in> set (Connections proc_httpd)" by (simp add: proc_httpd_def)
  have c: "is_transport (Type desc_listen)" by (simp add: desc_listen_def is_transport_def)
  have d: "Peer desc_listen = []" by (simp add: desc_listen_def)
  have e: "Descriptor desc_listen \<noteq> - 1" by (simp add: desc_listen_def)
  have f: "\<forall>d' \<in> set (Connections proc_httpd). Descriptor d' = Descriptor desc_listen
           \<longrightarrow> is_transport (Type d') \<and> Peer d' = []"
    using c d by (simp add: proc_httpd_def)
  note t = listener_discarded [where pt = pt_listen and P = 40 and env = ex_env
      and ?ord1.0 = "[0, 1, 40]" and ?ord2.0 = "[0, 1, 40]", OF a b c d e f]
  have g: "conn_step ex_env pt_listen [] 40 proc_httpd desc_listen [] = Inr []"
    using conjunct1 [OF t] by blast
  have h: "filter (\<lambda>c. ep_pid (c_self c) = 40 \<and> ep_fd (c_self c) = Descriptor desc_listen)
     (connections ex_env [0, 1, 40] [0, 1, 40] pt_listen) = []"
    using conjunct2 [OF t] by (simp add: filter_empty_conv)
  show ?thesis by (intro conjI a b c d e g h)
qed

section \<open>Parent connections\<close>

lemma filter_unique_key:
  assumes "distinct (map f xs)" and "x \<in> set xs"
  shows "filter (\<lambda>c. f c = f x) xs = [x]"
  using assms
proof (induction xs)
  case Nil
  then show ?case by simp
next
  case (Cons y ys)
  show ?case
  proof (cases "x = y")
    case True
    have "f c \<noteq> f y" if "c \<in> set ys" for c
    proof
      assume "f c = f y"
      moreover have "f c \<in> f ` set ys" using that by simp
      moreover have "f y \<notin> f ` set ys" using Cons.prems(1) by simp
      ultimately show False by simp
    qed
    then have "filter (\<lambda>c. f c = f x) ys = []"
      using True by (simp add: filter_empty_conv)
    then show ?thesis using True by simp
  next
    case False
    then have "x \<in> set ys" using Cons.prems(2) by simp
    then have "f y \<noteq> f x" using Cons.prems(1) by force
    then show ?thesis using Cons.IH \<open>x \<in> set ys\<close> Cons.prems(1) by simp
  qed
qed

lemma output_at_key:
  assumes "correlate env ord1 ord2 pt = Inr m" and "map_of m k = Some c"
  shows "filter (\<lambda>x. conn_key x = k) (connections env ord1 ord2 pt) = [c]"
proof -
  have ck: "conn_key c = k"
    using correlate_keyed [OF assms(1), unfolded keyed_def, rule_format, OF assms(2)] .
  have "k \<in> set (map fst m)" using assms(2) by (metis has_key_def has_key_set option.simps(3))
  then have "lookup_conn m k \<in> set (connections env ord1 ord2 pt)"
    using assms(1) by (simp add: connections_def set_sort_keys)
  then have cin: "c \<in> set (connections env ord1 ord2 pt)"
    using assms(2) by (simp add: lookup_conn_def)
  have "distinct (map conn_key (connections env ord1 ord2 pt))"
    by (simp add: output_keys [OF assms(1)] distinct_sort_keys correlate_distinct [OF assms(1)])
  from filter_unique_key [OF this cin] show ?thesis by (simp add: ck)
qed

lemma proc_step_parent_key:
  assumes "proc_step env pt epm pid a = Inr b" and "pt pid = Some (Some p)"
  shows "has_key b (Ppid p, - 1, pid, - 1)"
proof -
  from assms obtain pp where
    f: "foldE (conn_step env pt epm pid p) (Connections p)
              (AList.update (Ppid p, - 1, pid, - 1) (parent_connection (Ppid p) pp pid p) a) = Inr b"
    by (auto simp: proc_step_def Let_def split: option.splits)
  have "reaches pt (AList.update (Ppid p, - 1, pid, - 1) (parent_connection (Ppid p) pp pid p) a) b"
    using f
  proof (rule foldE_rel)
    show "reaches pt a a" for a by (rule reaches_refl)
    show "reaches pt a c" if "reaches pt a b" "reaches pt b c" for a b c
      using that by (rule reaches_trans)
    show "reaches pt a b"
      if "x \<in> set (Connections p)" "conn_step env pt epm pid p x a = Inr b" for x a b
      using that(2) assms(2) that(1) by (rule conn_step_reaches)
  qed
  then show ?thesis by (rule reaches_mono) (simp add: has_key_update)
qed

lemma correlate_parent_key:
  assumes "correlate env ord1 ord2 pt = Inr m" and "pid \<in> set ord2" and "pt pid = Some (Some p)"
  shows "has_key m (Ppid p, - 1, pid, - 1)"
proof -
  from assms(1) obtain epm where f: "foldE (proc_step env pt epm) ord2 [] = Inr m"
    by (auto simp: correlate_def split: sum.splits)
  show ?thesis using f assms(2)
  proof (rule foldE_reach)
    show "has_key b (Ppid p, - 1, pid, - 1)" if "proc_step env pt epm pid a = Inr b" for a b
      using that assms(3) by (rule proc_step_parent_key)
    show "has_key b (Ppid p, - 1, pid, - 1)"
      if "has_key a (Ppid p, - 1, pid, - 1)" "proc_step env pt epm y a = Inr b" for y a b
      using proc_step_reaches [OF that(2)] that(1) by (rule reaches_mono)
  qed
qed

text \<open>The shape of the key of each kind of assignment.\<close>

lemma put_data_key: "put_data pt k c \<Longrightarrow> \<exists>q n. k = (q, n, MaxInt32, 0)"
  unfolding put_data_def by (elim exE conjE) simp

lemma put_kernel_key: "put_kernel pt k c \<Longrightarrow> \<exists>q n. k = (q, n, 0, 0)"
  unfolding put_kernel_def by (elim exE conjE) simp

lemma put_host_key:
  assumes "put_host pt k c" and "descriptors_nonneg pt"
  shows "\<exists>q n. 0 \<le> n \<and> k = (- 1, - 1, q, n)"
  using assms(1) unfolding put_host_def
proof (elim exE conjE)
  fix pid p d port
  assume a: "pt pid = Some (Some p)" "d \<in> set (Connections p)"
    "k = (- 1, - 1, pid, Descriptor d)"
  have "0 \<le> Descriptor d"
    using assms(2) [unfolded descriptors_nonneg_def, rule_format, OF a(1,2)] .
  then show ?thesis using a(3) by simp
qed

lemma put_peer_key:
  assumes "put_peer pt m k c" and "descriptors_nonneg pt"
  shows "\<exists>q n r rn. 0 \<le> n \<and> 0 \<le> rn \<and> q \<noteq> r \<and> k = (q, n, r, rn) \<and>
           \<not> has_key m k \<and> \<not> has_key m (r, rn, q, n)"
  using assms(1) unfolding put_peer_def
proof (elim exE conjE)
  fix pid p d rpid rp rd
  assume a: "pt pid = Some (Some p)" "d \<in> set (Connections p)" "pid \<noteq> rpid"
    "pt rpid = Some (Some rp)" "rd \<in> set (Connections rp)"
    "k = (pid, Descriptor d, rpid, Descriptor rd)"
    "\<not> has_key m k" "\<not> has_key m (rpid, Descriptor rd, pid, Descriptor d)"
  have "0 \<le> Descriptor d"
    using assms(2) [unfolded descriptors_nonneg_def, rule_format, OF a(1,2)] .
  moreover have "0 \<le> Descriptor rd"
    using assms(2) [unfolded descriptors_nonneg_def, rule_format, OF a(4,5)] .
  ultimately show ?thesis using a(3,6,7,8) by blast
qed

lemma allowed_parent_value:
  assumes "allowed pt a k c" and "k = (Ppid p, - 1, pid, - 1)" and "descriptors_nonneg pt"
    and "pt pid = Some (Some p)" and "pt (Ppid p) = Some (Some pp)"
  shows "c = parent_connection (Ppid p) pp pid p"
proof -
  from assms(1) consider "put_parent pt k c" | "put_data pt k c" | "put_kernel pt k c"
    | "put_host pt k c" | "put_peer pt a k c"
    by (auto simp: allowed_def)
  then show ?thesis
  proof cases
    case 1
    then obtain pid' p' pp' where h: "pt pid' = Some (Some p')" "pt (Ppid p') = Some (Some pp')"
      "k = (Ppid p', - 1, pid', - 1)" "c = parent_connection (Ppid p') pp' pid' p'"
      unfolding put_parent_def by blast
    from h(3) assms(2) have "pid' = pid" by simp
    then have "p' = p" using h(1) assms(4) by simp
    then have "pp' = pp" using h(2) assms(5) by simp
    then show ?thesis using h(4) \<open>pid' = pid\<close> \<open>p' = p\<close> by simp
  next
    case 2
    from put_data_key [OF this] show ?thesis using assms(2) by auto
  next
    case 3
    from put_kernel_key [OF this] show ?thesis using assms(2) by auto
  next
    case 4
    from put_host_key [OF this assms(3)] show ?thesis using assms(2) by auto
  next
    case 5
    from put_peer_key [OF this assms(3)] show ?thesis using assms(2) by auto
  qed
qed

lemma correlate_parent_value:
  assumes "correlate env ord1 ord2 pt = Inr m" and "descriptors_nonneg pt"
    and "pt pid = Some (Some p)" and "pt (Ppid p) = Some (Some pp)"
    and "map_of m (Ppid p, - 1, pid, - 1) = Some c"
  shows "c = parent_connection (Ppid p) pp pid p"
proof -
  have "\<forall>c. map_of m (Ppid p, - 1, pid, - 1) = Some c \<longrightarrow> c = parent_connection (Ppid p) pp pid p"
    using correlate_reaches [OF assms(1)]
  proof (rule reaches_induct)
    show "\<forall>c. map_of [] (Ppid p, - 1, pid, - 1) = Some c \<longrightarrow> c = parent_connection (Ppid p) pp pid p"
      by simp
    show "\<forall>c. map_of (AList.update k x a) (Ppid p, - 1, pid, - 1) = Some c
              \<longrightarrow> c = parent_connection (Ppid p) pp pid p"
      if "\<forall>c. map_of a (Ppid p, - 1, pid, - 1) = Some c \<longrightarrow> c = parent_connection (Ppid p) pp pid p"
        and "allowed pt a k x" for a k x
      using that allowed_parent_value [where pt = pt and pid = pid, OF that(2) _ assms(2,3,4)]
      by (auto simp: update_conv')
  qed
  then show ?thesis using assms(5) by simp
qed

text \<open>
  Claim C5, as the code has it. On a complete table, for every process of the table,
  whatever its parent id (zero and the root supervisor 1 included), the output holds
  exactly one connection between the endpoints (parent, - 1) and (child, - 1), and it is
  the synthetic record of type \<open>parent:<ppid>\<close> whose self endpoint is the parent and whose
  peer endpoint is the child. No transport connection between the two is needed. The record
  is entered when the loop reaches the process, before its descriptors.
\<close>

theorem parent_connection_emitted:
  assumes "complete_table pt" and "visits ord1 pt" and "visits ord2 pt"
    and "descriptors_nonneg pt"
    and "pt pid = Some (Some p)" and "pt (Ppid p) = Some (Some pp)"
  shows "filter (\<lambda>c. conn_key c = (Ppid p, - 1, pid, - 1)) (connections env ord1 ord2 pt)
           = [parent_connection (Ppid p) pp pid p]"
proof -
  have s2: "set ord2 = dom pt" using assms(3) by (simp add: visits_def)
  then obtain m where m: "correlate env ord1 ord2 pt = Inr m"
    using correlate_total [OF assms(1,2), of ord2 env] by auto
  have "pid \<in> set ord2" using s2 assms(5) by (auto simp: dom_def)
  then have "has_key m (Ppid p, - 1, pid, - 1)"
    using correlate_parent_key [OF m _ assms(5)] by simp
  then obtain c where c: "map_of m (Ppid p, - 1, pid, - 1) = Some c"
    by (auto simp: has_key_def)
  then have "c = parent_connection (Ppid p) pp pid p"
    using correlate_parent_value [OF m assms(4,5,6)] by simp
  then show ?thesis using output_at_key [OF m c] by simp
qed

lemma pt_pair_complete: "complete_table pt_pair"
  by (simp add: complete_table_def pt_pair_def proc_kernel_def proc_launchd_def proc_client_def
      proc_server_def)

lemma pt_pair_visits: "visits [0, 1, 10, 20] pt_pair" "visits [0, 1, 20, 10] pt_pair"
  by (auto simp: visits_def pt_pair_def)

lemma pt_pair_nonneg: "descriptors_nonneg pt_pair"
  by (auto simp: descriptors_nonneg_def pt_pair_def proc_kernel_def proc_launchd_def
      proc_client_def proc_server_def desc_client_def desc_server_def split: if_splits)

theorem parent_connection_emitted_witness:
  "complete_table pt_pair \<and> visits [0, 1, 10, 20] pt_pair \<and> visits [0, 1, 20, 10] pt_pair \<and>
   descriptors_nonneg pt_pair \<and> pt_pair 10 = Some (Some proc_client) \<and>
   pt_pair (Ppid proc_client) = Some (Some proc_launchd) \<and>
   filter (\<lambda>c. conn_key c = (Ppid proc_client, - 1, 10, - 1))
       (connections ex_env [0, 1, 10, 20] [0, 1, 20, 10] pt_pair)
     = [parent_connection (Ppid proc_client) proc_launchd 10 proc_client]"
proof -
  have a: "pt_pair 10 = Some (Some proc_client)" by (simp add: pt_pair_def)
  have b: "pt_pair (Ppid proc_client) = Some (Some proc_launchd)"
    by (simp add: pt_pair_def proc_client_def)
  note t = parent_connection_emitted [where pt = pt_pair and pid = 10 and env = ex_env,
      OF pt_pair_complete pt_pair_visits(1) pt_pair_visits(2) pt_pair_nonneg a b]
  show ?thesis by (intro conjI pt_pair_complete pt_pair_visits pt_pair_nonneg a b t)
qed

text \<open>
  The synthetic connections of \<open>pt_pair\<close>: one for each of the four processes, those with
  parent 0 and those whose parent is the root supervisor 1.
\<close>

theorem parent_connection_for_every_process:
  "map c_ftype (filter (\<lambda>c. ep_fd (c_self c) = - 1 \<and> ep_fd (c_peer c) = - 1)
      (connections ex_env [0, 1, 10, 20] [0, 1, 10, 20] pt_pair))
     = [''parent:0'', ''parent:0'', ''parent:1'', ''parent:1''] \<and>
   map conn_key (filter (\<lambda>c. ep_fd (c_self c) = - 1 \<and> ep_fd (c_peer c) = - 1)
      (connections ex_env [0, 1, 10, 20] [0, 1, 10, 20] pt_pair))
     = [(0, - 1, 0, - 1), (0, - 1, 1, - 1), (1, - 1, 10, - 1), (1, - 1, 20, - 1)]"
  by code_simp

section \<open>Reciprocal descriptors\<close>








section \<open>Reciprocal pairs are recorded once\<close>



section \<open>The candidates of a descriptor\<close>

lemma foldE_inv:
  assumes "foldE f xs s = Inr s'" and "I s"
    and "\<And>y a b. y \<in> set xs \<Longrightarrow> I a \<Longrightarrow> f y a = Inr b \<Longrightarrow> I b"
  shows "I s'"
  using assms
proof (induction xs arbitrary: s)
  case Nil
  then show ?case by simp
next
  case (Cons y ys)
  from Cons.prems(1) obtain t where t: "f y s = Inr t" "foldE f ys t = Inr s'"
    by (auto split: sum.splits)
  have "I t" using Cons.prems(3) [of y s t] Cons.prems(2) t(1) by simp
  moreover have "\<And>z a b. z \<in> set ys \<Longrightarrow> I a \<Longrightarrow> f z a = Inr b \<Longrightarrow> I b"
    using Cons.prems(3) by (meson list.set_intros(2))
  ultimately show ?case using Cons.IH [OF t(2)] by blast
qed

lemma foldE_reach_inv:
  assumes "foldE f xs s = Inr s'" and "x \<in> set xs" and "I s"
    and "\<And>y a b. y \<in> set xs \<Longrightarrow> I a \<Longrightarrow> f y a = Inr b \<Longrightarrow> I b"
    and "\<And>a b. I a \<Longrightarrow> f x a = Inr b \<Longrightarrow> G b"
    and "\<And>y a b. y \<in> set xs \<Longrightarrow> G a \<Longrightarrow> f y a = Inr b \<Longrightarrow> G b"
  shows "G s'"
  using assms(1,2,3,4,6)
proof (induction xs arbitrary: s)
  case Nil
  then show ?case by simp
next
  case (Cons y ys)
  from Cons.prems(1) obtain t where t: "f y s = Inr t" "foldE f ys t = Inr s'"
    by (auto split: sum.splits)
  have It: "I t" using Cons.prems(4) [of y s t] Cons.prems(3) t(1) by simp
  have stepI: "\<And>z a b. z \<in> set ys \<Longrightarrow> I a \<Longrightarrow> f z a = Inr b \<Longrightarrow> I b"
    using Cons.prems(4) by (meson list.set_intros(2))
  have stepG: "\<And>z a b. z \<in> set ys \<Longrightarrow> G a \<Longrightarrow> f z a = Inr b \<Longrightarrow> G b"
    using Cons.prems(5) by (meson list.set_intros(2))
  show ?case
  proof (cases "x = y")
    case True
    then have "G t" using assms(5) [of s t] Cons.prems(3) t(1) by simp
    with t(2) show ?thesis
      by (rule foldE_inv) (rule stepG)
  next
    case False
    then have "x \<in> set ys" using Cons.prems(2) by simp
    then show ?thesis using Cons.IH [OF t(2) _ It] stepI stepG by blast
  qed
qed

lemma grows_refl: "grows pt P A m m"
  by (simp add: grows_def)

lemma cand_step_grows:
  assumes "cand_step pt P A self rpid i u = Inr v" and "grows pt P A m u" and "rpid \<noteq> P"
    and "ep_pid self = P" and "ep_fd self = Descriptor A"
  shows "grows pt P A m v"
proof -
  from assms(1) obtain rp where rp: "pt rpid = Some (Some rp)" "i < length (Connections rp)"
    by (auto simp: cand_step_def split: option.splits if_splits)
  define B where "B = Connections rp ! i"
  have Bin: "B \<in> set (Connections rp)" using rp(2) by (simp add: B_def)
  let ?K = "(P, Descriptor A, rpid, Descriptor B)"
  show ?thesis
  proof (cases "reciprocal A B \<and> \<not> has_key u ?K \<and> \<not> has_key u (rpid, Descriptor B, P, Descriptor A)")
    case False
    then have "v = u" using assms(1) rp
      by (auto simp: cand_step_def B_def Let_def split: if_splits)
    then show ?thesis using assms(2) by simp
  next
    case True
    then have "v = AList.update ?K
        \<lparr>c_ftype = Type A, c_name = Name A, c_self = self,
          c_peer = \<lparr>ep_pid = rpid, ep_fd = Descriptor B, ep_command = Exec rp,
                    ep_name = Peer A\<rparr>\<rparr> u"
      using assms(1,4,5) rp by (simp add: cand_step_def B_def Let_def)
    then obtain c where v: "v = AList.update ?K c u" ..
    have "\<not> has_key m (rpid, Descriptor B, P, Descriptor A)"
      using True assms(2) unfolding grows_def by blast
    then have "accepted pt P A m ?K"
      unfolding accepted_def using assms(3) rp(1) Bin True by blast
    then show ?thesis using assms(2) unfolding grows_def v has_key_update by blast
  qed
qed

lemma rpid_step_grows:
  assumes "rpid_step pt epm key P A self rpid u = Inr v" and "grows pt P A m u"
    and "ep_pid self = P" and "ep_fd self = Descriptor A"
  shows "grows pt P A m v"
proof (cases "P = rpid")
  case True
  then show ?thesis using assms(1,2) by (simp add: rpid_step_def)
next
  case False
  then have f: "foldE (cand_step pt P A self rpid) (epm_ix epm key rpid) u = Inr v"
    using assms(1) by (simp add: rpid_step_def)
  show ?thesis using f assms(2)
  proof (rule foldE_inv)
    fix y a b assume "grows pt P A m a" "cand_step pt P A self rpid y a = Inr b"
    then show "grows pt P A m b"
      using False assms(3,4) cand_step_grows by metis
  qed
qed

lemma accepted_shape: "accepted pt P A m k \<Longrightarrow> \<exists>Q n. Q \<noteq> P \<and> k = (P, Descriptor A, Q, n)"
  unfolding accepted_def by blast

lemma grows_reversed:
  assumes "grows pt P A m u" and "Q \<noteq> P" and "\<not> has_key m (Q, n, P, r)"
  shows "\<not> has_key u (Q, n, P, r)"
proof
  assume "has_key u (Q, n, P, r)"
  then have "accepted pt P A m (Q, n, P, r)" using assms(1,3) unfolding grows_def by blast
  from accepted_shape [OF this] show False using assms(2) by simp
qed

lemma cand_step_accepts:
  assumes "cand_step pt P A self Q j u = Inr v" and "grows pt P A m u" and "Q \<noteq> P"
    and "pt Q = Some (Some q)" and "j < length (Connections q)"
    and "reciprocal A (Connections q ! j)"
    and "\<not> has_key m (Q, Descriptor (Connections q ! j), P, Descriptor A)"
    and "ep_pid self = P" and "ep_fd self = Descriptor A"
  shows "has_key v (P, Descriptor A, Q, Descriptor (Connections q ! j))"
proof -
  have "\<not> has_key u (Q, Descriptor (Connections q ! j), P, Descriptor A)"
    by (rule grows_reversed [OF assms(2,3,7)])
  then show ?thesis
    using assms(1,4,5,6,8,9) by (auto simp: cand_step_def Let_def has_key_update split: if_splits)
qed

lemma cand_step_keeps:
  assumes "cand_step pt P A self rpid i u = Inr v" and "has_key u k" and "rpid \<noteq> P"
    and "ep_pid self = P" and "ep_fd self = Descriptor A"
  shows "has_key v k"
  using cand_step_grows [OF assms(1) grows_refl assms(3,4,5)] assms(2)
  unfolding grows_def by blast

lemma rpid_step_keeps:
  assumes "rpid_step pt epm key P A self rpid u = Inr v" and "has_key u k"
    and "ep_pid self = P" and "ep_fd self = Descriptor A"
  shows "has_key v k"
  using rpid_step_grows [OF assms(1) grows_refl assms(3,4)] assms(2)
  unfolding grows_def by blast

lemma conn_step_hit:
  assumes "is_transport (Type A)" and "Peer A \<noteq> []"
    and "has_key epm (epm_key (Type A) (Peer A))"
  shows "conn_step env pt epm P p A m =
           foldE (rpid_step pt epm (epm_key (Type A) (Peer A)) P A (self_endpoint P p A))
             (rpids_of epm (epm_key (Type A) (Peer A))) m"
  using assms transport_not_other [OF assms(1)]
  by (simp add: conn_step_def Let_def self_endpoint_def)

lemma conn_step_candidates:
  assumes "build_epm ord1 pt = Inr epm" and "visits ord1 pt"
    and "is_transport (Type A)" and "Peer A \<noteq> []"
    and "has_key epm (epm_key (Type A) (Peer A))"
  shows "\<exists>m'. conn_step env pt epm P p A m = Inr m' \<and>
           (\<forall>k. has_key m' k = (has_key m k \<or> accepted pt P A m k))"
proof -
  define key where "key = epm_key (Type A) (Peer A)"
  let ?self = "self_endpoint P p A"
  have sf: "ep_pid ?self = P" "ep_fd ?self = Descriptor A" by (simp_all add: self_endpoint_def)
  from assms(2) have d: "distinct ord1" and s: "set ord1 = dom pt" by (auto simp: visits_def)
  have inv: "epm_inv epm" by (rule build_epm_inv [OF assms(1)])
  from conn_step_total [OF assms(1) d] obtain m' where m': "conn_step env pt epm P p A m = Inr m'"
    by blast
  then have f: "foldE (rpid_step pt epm key P A ?self) (rpids_of epm key) m = Inr m'"
    by (simp add: conn_step_hit [OF assms(3,4,5)] key_def)
  have g: "grows pt P A m m'"
    using f grows_refl
  proof (rule foldE_inv)
    fix y a b assume "grows pt P A m a" "rpid_step pt epm key P A ?self y a = Inr b"
    then show "grows pt P A m b" using sf rpid_step_grows by metis
  qed
  have acc: "has_key m' k" if "accepted pt P A m k" for k
  proof -
    from that obtain Q q B where h: "Q \<noteq> P" "pt Q = Some (Some q)" "B \<in> set (Connections q)"
      "reciprocal A B" "k = (P, Descriptor A, Q, Descriptor B)"
      "\<not> has_key m (Q, Descriptor B, P, Descriptor A)"
      unfolding accepted_def by blast
    from h(3) obtain j where j: "j < length (Connections q)" "Connections q ! j = B"
      by (auto simp: in_set_conv_nth)
    have Qin: "Q \<in> set ord1" using s h(2) by (auto simp: dom_def)
    have "indexed key B"
      using assms(3,4) h(4) by (simp add: indexed_def key_def reciprocal_def)
    then have jin: "j \<in> set (epm_ix epm key Q)"
      using j by (simp add: build_epm_ix [OF assms(1) d Qin h(2)] positions_set)
    then have "epm_ix epm key Q \<noteq> []" by auto
    then have Qr: "Q \<in> set (rpids_of epm key)" by (simp add: epm_inv_rpids [OF inv])
    have "has_key m' k" using f Qr grows_refl
    proof (rule foldE_reach_inv [where I = "grows pt P A m"])
      fix y a b assume "grows pt P A m a" "rpid_step pt epm key P A ?self y a = Inr b"
      then show "grows pt P A m b" using sf rpid_step_grows by metis
    next
      fix y a b assume "has_key a k" "rpid_step pt epm key P A ?self y a = Inr b"
      then show "has_key b k" using sf rpid_step_keeps by metis
    next
      fix a b assume a: "grows pt P A m a" and "rpid_step pt epm key P A ?self Q a = Inr b"
      then have c: "foldE (cand_step pt P A ?self Q) (epm_ix epm key Q) a = Inr b"
        using h(1) by (simp add: rpid_step_def)
      show "has_key b k" using c jin a
      proof (rule foldE_reach_inv [where I = "grows pt P A m"])
        fix y u v assume "grows pt P A m u" "cand_step pt P A ?self Q y u = Inr v"
        then show "grows pt P A m v" using sf h(1) cand_step_grows by metis
      next
        fix y u v assume "has_key u k" "cand_step pt P A ?self Q y u = Inr v"
        then show "has_key v k" using sf h(1) cand_step_keeps by metis
      next
        fix u v assume gu: "grows pt P A m u" and cs: "cand_step pt P A ?self Q j u = Inr v"
        have r: "reciprocal A (Connections q ! j)" using h(4) j(2) by simp
        have nr: "\<not> has_key m (Q, Descriptor (Connections q ! j), P, Descriptor A)"
          using h(6) j(2) by simp
        have "has_key v (P, Descriptor A, Q, Descriptor (Connections q ! j))"
          using cs gu h(1,2) j(1) r nr sf by (rule cand_step_accepts)
        then show "has_key v k" by (simp add: h(5) j(2))
      qed
    qed
    then show ?thesis .
  qed
  have "has_key m' k = (has_key m k \<or> accepted pt P A m k)" for k
    using g acc [of k] unfolding grows_def by blast
  with m' show ?thesis by blast
qed

lemma rpids_candidates:
  assumes "build_epm ord1 pt = Inr epm" and "visits ord1 pt" and "is_transport t" and "s \<noteq> []"
  shows "set (rpids_of epm (epm_key t s)) =
           {Q. \<exists>q B. pt Q = Some (Some q) \<and> B \<in> set (Connections q) \<and>
                 Type B = t \<and> Self B = s}"
proof -
  from assms(2) have d: "distinct ord1" and st: "set ord1 = dom pt" by (auto simp: visits_def)
  have inv: "epm_inv epm" by (rule build_epm_inv [OF assms(1)])
  have ind: "indexed (epm_key t s) B = (Type B = t \<and> Self B = s)" for B
    using epm_key_inject [of "Type B" t "Self B" s] assms(3,4) by (auto simp: indexed_def)
  show ?thesis
  proof (intro set_eqI iffI)
    fix Q assume "Q \<in> set (rpids_of epm (epm_key t s))"
    then have "epm_ix epm (epm_key t s) Q \<noteq> []" by (simp add: epm_inv_rpids [OF inv])
    then obtain i where "i \<in> set (epm_ix epm (epm_key t s) Q)" by (metis last_in_set)
    from build_epm_entry [OF assms(1) d this] obtain q where
      "pt Q = Some (Some q)" "i < length (Connections q)" "indexed (epm_key t s) (Connections q ! i)"
      by blast
    then show "Q \<in> {Q. \<exists>q B. pt Q = Some (Some q) \<and> B \<in> set (Connections q) \<and>
                 Type B = t \<and> Self B = s}"
      unfolding ind by (metis (mono_tags, lifting) mem_Collect_eq nth_mem)
  next
    fix Q assume "Q \<in> {Q. \<exists>q B. pt Q = Some (Some q) \<and> B \<in> set (Connections q) \<and>
                 Type B = t \<and> Self B = s}"
    then obtain q B where h: "pt Q = Some (Some q)" "B \<in> set (Connections q)"
      "indexed (epm_key t s) B"
      unfolding ind by blast
    from h(2) obtain j where j: "j < length (Connections q)" "Connections q ! j = B"
      by (auto simp: in_set_conv_nth)
    have Qin: "Q \<in> set ord1" using st h(1) by (auto simp: dom_def)
    have "j \<in> set (epm_ix epm (epm_key t s) Q)"
      using j h(3) by (simp add: build_epm_ix [OF assms(1) d Qin h(1)] positions_set)
    then have "epm_ix epm (epm_key t s) Q \<noteq> []" by auto
    then show "Q \<in> set (rpids_of epm (epm_key t s))" by (simp add: epm_inv_rpids [OF inv])
  qed
qed

section \<open>What a descriptor adds to the map\<close>

text \<open>
  Claim C2, as the code has it. When the index holds the key of a transport descriptor
  \<open>A\<close> with a peer string, the candidate process ids are taken in ascending order without
  repetition, and they are the owners of the descriptors of \<open>A\<close>'s type whose self string is
  \<open>A\<close>'s peer string. Processing \<open>A\<close> for its owner \<open>P\<close> completes and adds to the map
  exactly the keys \<open>(P, fd A, Q, fd B)\<close> of the descriptors \<open>B\<close> of the processes \<open>Q\<close> other
  than \<open>P\<close> with: the same type, \<open>B\<close>'s self string equal to \<open>A\<close>'s peer string, and \<open>B\<close>'s
  peer string equal to \<open>A\<close>'s self string, or empty on type PSXSHM or unix; less those whose
  reversed key is recorded already. Every such candidate is recorded, not the first alone,
  and the roles of the self and peer strings are not those of \<open>reciprocal_spec\<close>:
  see the example after the theorem.
\<close>

theorem candidates_recorded:
  assumes "build_epm ord1 pt = Inr epm" and "visits ord1 pt"
    and "is_transport (Type A)" and "Peer A \<noteq> []"
    and "has_key epm (epm_key (Type A) (Peer A))"
  shows "sorted (rpids_of epm (epm_key (Type A) (Peer A))) \<and>
         distinct (rpids_of epm (epm_key (Type A) (Peer A))) \<and>
         set (rpids_of epm (epm_key (Type A) (Peer A))) =
           {Q. \<exists>q B. pt Q = Some (Some q) \<and> B \<in> set (Connections q) \<and>
                 Type B = Type A \<and> Self B = Peer A} \<and>
         (\<forall>P p m. \<exists>m'. conn_step env pt epm P p A m = Inr m' \<and>
            (\<forall>k. has_key m' k =
               (has_key m k \<or>
                (\<exists>Q q B. Q \<noteq> P \<and> pt Q = Some (Some q) \<and> B \<in> set (Connections q) \<and>
                   reciprocal A B \<and> k = (P, Descriptor A, Q, Descriptor B) \<and>
                   \<not> has_key m (Q, Descriptor B, P, Descriptor A)))))"
proof (intro conjI allI)
  show "sorted (rpids_of epm (epm_key (Type A) (Peer A)))" by (rule rpids_sorted)
  show "distinct (rpids_of epm (epm_key (Type A) (Peer A)))"
    by (rule rpids_distinct [OF build_epm_inv [OF assms(1)]])
  show "set (rpids_of epm (epm_key (Type A) (Peer A))) =
           {Q. \<exists>q B. pt Q = Some (Some q) \<and> B \<in> set (Connections q) \<and>
                 Type B = Type A \<and> Self B = Peer A}"
    by (rule rpids_candidates [OF assms(1,2,3,4)])
  show "\<exists>m'. conn_step env pt epm P p A m = Inr m' \<and>
            (\<forall>k. has_key m' k =
               (has_key m k \<or>
                (\<exists>Q q B. Q \<noteq> P \<and> pt Q = Some (Some q) \<and> B \<in> set (Connections q) \<and>
                   reciprocal A B \<and> k = (P, Descriptor A, Q, Descriptor B) \<and>
                   \<not> has_key m (Q, Descriptor B, P, Descriptor A))))" for P p m
    using conn_step_candidates [OF assms, of env P p m] unfolding accepted_def .
qed

lemma pt_unix_index:
  "build_epm [0, 1, 10, 20, 30] pt_unix
     = Inr [(''unix: 0xa'', [(10, [0])]), (''unix: 0xb'', [(20, [0]), (30, [0])])]"
  by code_simp

theorem candidates_recorded_witness:
  "build_epm [0, 1, 10, 20, 30] pt_unix
     = Inr [(''unix: 0xa'', [(10, [0])]), (''unix: 0xb'', [(20, [0]), (30, [0])])] \<and>
   visits [0, 1, 10, 20, 30] pt_unix \<and> is_transport (Type desc_ua) \<and> Peer desc_ua \<noteq> [] \<and>
   has_key [(''unix: 0xa'', [(10, [0 :: nat])]), (''unix: 0xb'', [(20, [0]), (30 :: int, [0])])]
     (epm_key (Type desc_ua) (Peer desc_ua)) \<and>
   set (rpids_of [(''unix: 0xa'', [(10, [0])]), (''unix: 0xb'', [(20, [0]), (30, [0])])]
          (epm_key (Type desc_ua) (Peer desc_ua))) =
     {Q. \<exists>q B. pt_unix Q = Some (Some q) \<and> B \<in> set (Connections q) \<and>
           Type B = Type desc_ua \<and> Self B = Peer desc_ua}"
proof -
  have b: "visits [0, 1, 10, 20, 30] pt_unix" by (auto simp: visits_def pt_unix_def)
  have c: "is_transport (Type desc_ua)" by (simp add: desc_ua_def is_transport_def)
  have d: "Peer desc_ua \<noteq> []" by (simp add: desc_ua_def)
  have e: "has_key [(''unix: 0xa'', [(10, [0 :: nat])]), (''unix: 0xb'', [(20, [0]), (30 :: int, [0])])]
     (epm_key (Type desc_ua) (Peer desc_ua))"
    by (simp add: has_key_def epm_key_def desc_ua_def)
  note t = candidates_recorded [where pt = pt_unix and env = ex_env, OF pt_unix_index b c d e]
  show ?thesis
    by (intro conjI pt_unix_index b c d e conjunct1 [OF conjunct2 [OF conjunct2 [OF t]]])
qed

text \<open>
  In \<open>pt_unix\<close> descriptor 3 of process 10 is connected both to descriptor 4 of process 20,
  which the condition in the words of the specification rejects, and to descriptor 5 of
  process 30.
\<close>

theorem unix_candidates_both_recorded:
  "\<not> reciprocal_spec desc_ua desc_ub \<and>
   map conn_key (connections ex_env [0, 1, 10, 20, 30] [0, 1, 10, 20, 30] pt_unix)
     = [(0, - 1, 0, - 1), (0, - 1, 1, - 1), (1, - 1, 10, - 1), (1, - 1, 20, - 1),
        (1, - 1, 30, - 1), (10, 3, 20, 4), (10, 3, 30, 5)]"
  by code_simp

section \<open>External hosts\<close>

text \<open>
  A TCP or UDP descriptor whose peer is not in the index is recorded as an external-host
  connection, from the synthetic endpoint \<open>(- 1, - 1)\<close> to the descriptor, when the guard
  \<open>is_local\<close> fails on the address parsed from the host part of the peer string.
\<close>

lemma external_host_step:
  assumes "Type d = ''TCP'' \<or> Type d = ''UDP''" and "Peer d \<noteq> []"
    and "\<not> has_key epm (epm_key (Type d) (Peer d))"
  shows "conn_step env pt epm pid p d m =
     (let hp = (case SplitHostPort env (Peer d) of None \<Rightarrow> ([], []) | Some x \<Rightarrow> x) in
      if is_local env (ParseIP env (fst hp)) then Inr m
      else Inr (AList.update (- 1, - 1, pid, Descriptor d)
                 \<lparr>c_ftype = Type d, c_name = Name d,
                  c_self = \<lparr>ep_pid = - 1, ep_fd = - 1, ep_command = snd hp, ep_name = Peer d\<rparr>,
                  c_peer = self_endpoint pid p d\<rparr> m))"
proof -
  have t: "is_transport (Type d)" using assms(1) by (auto simp: is_transport_def)
  show ?thesis
    using assms transport_not_other [OF t] t
    by (simp add: conn_step_def Let_def self_endpoint_def)
qed

text \<open>
  When \<open>SplitHostPort\<close> fails, or the host part is a name and not an address,
  \<open>ParseIP\<close> gives the nil address; its text \<open><nil>\<close> is in neither table of local
  addresses and no classification holds of it, so the connection is recorded.
\<close>

lemma nil_address_not_local:
  assumes "''<nil>'' \<notin> localIps env" and "''<nil>'' \<notin> dom (interfaces env)"
  shows "\<not> is_local env None"
  using assms by (simp add: is_local_def IPString_def ipIs_def)

lemma unparsed_peer_step:
  assumes "Type d = ''TCP'' \<or> Type d = ''UDP''" and "Peer d \<noteq> []"
    and "\<not> has_key epm (epm_key (Type d) (Peer d))"
    and "SplitHostPort env (Peer d) = None" and "ParseIP env [] = None"
    and "''<nil>'' \<notin> localIps env" and "''<nil>'' \<notin> dom (interfaces env)"
  shows "has_key (case conn_step env pt epm pid p d m of Inr m' \<Rightarrow> m' | Inl e \<Rightarrow> [])
           (- 1, - 1, pid, Descriptor d)"
  using nil_address_not_local [OF assms(6,7)] assms(4,5)
  by (simp add: external_host_step [OF assms(1,2,3)] has_key_update)

text \<open>
  Claim C3 at the failing inputs. Process 60 has four TCP sockets with peers outside the
  index. The remote peer 203.0.113.5:443 is recorded as an external host and the loopback peer
  127.0.0.1:8080 is not, as the claim says. The peer \<open>localhost:8080\<close>, a local host, and the
  peer \<open>nowhere\<close>, on which parsing fails, are recorded as external hosts too (the latter with
  an empty port), where the claim says that nothing is emitted.
\<close>

theorem unparsed_peer_recorded_as_external:
  "SplitHostPort ex_env (Peer desc_unparsed) = None \<and>
   SplitHostPort ex_env (Peer desc_byname) = Some (''localhost'', ''8080'') \<and>
   ParseIP ex_env ''localhost'' = None \<and>
   map (\<lambda>c. (conn_key c, ep_name (c_self c), ep_command (c_self c)))
     (filter (\<lambda>c. ep_pid (c_self c) = - 1)
        (connections ex_env [0, 1, 60] [0, 1, 60] pt_remote))
     = [((- 1, - 1, 60, 7), ''203.0.113.5:443'', ''443''),
        ((- 1, - 1, 60, 9), ''localhost:8080'', ''8080''),
        ((- 1, - 1, 60, 10), ''nowhere'', [])]"
  by code_simp

section \<open>Edge ids\<close>

lemma digit_char_inj:
  assumes "a < 10" and "b < 10" and "''0123456789'' ! a = ''0123456789'' ! b"
  shows "a = b"
proof -
  have d: "distinct ''0123456789''" by simp
  have "a < length ''0123456789''" "b < length ''0123456789''" using assms(1,2) by simp_all
  then show ?thesis using assms(3) d nth_eq_iff_index_eq by blast
qed

lemma digit_char_in: "a < 10 \<Longrightarrow> ''0123456789'' ! a \<in> set ''0123456789''"
  by (rule nth_mem) simp

lemma digits_chars: "set (digits n) \<subseteq> set ''0123456789''"
proof (induction n rule: digits.induct)
  case (1 n)
  show ?case
  proof (cases "n < 10")
    case True
    then show ?thesis using digit_char_in [of n] by (subst digits.simps) simp
  next
    case False
    have "n mod 10 < 10" by simp
    then have "''0123456789'' ! (n mod 10) \<in> set ''0123456789''" by (rule digit_char_in)
    then show ?thesis using 1 False by (subst digits.simps) simp
  qed
qed

lemma digits_nonempty: "digits n \<noteq> []"
  by (subst digits.simps) simp

lemma digits_length: "(length (digits n) = 1) = (n < 10)"
  by (subst digits.simps) (simp add: digits_nonempty)

lemma digits_inject: "digits n = digits m \<Longrightarrow> n = m"
proof (induction n arbitrary: m rule: digits.induct)
  case (1 n)
  show ?case
  proof (cases "n < 10")
    case True
    then have m: "m < 10" using "1.prems" digits_length by metis
    have "[''0123456789'' ! n] = [''0123456789'' ! m]"
      using "1.prems" True m by (subst (asm) digits.simps, subst (asm) (2) digits.simps) simp
    then show ?thesis using digit_char_inj [OF True m] by simp
  next
    case False
    then have m: "\<not> m < 10" using "1.prems" digits_length by metis
    have "digits (n div 10) @ [''0123456789'' ! (n mod 10)]
            = digits (m div 10) @ [''0123456789'' ! (m mod 10)]"
      using "1.prems" False m by (subst (asm) digits.simps, subst (asm) (2) digits.simps) simp
    then have a: "digits (n div 10) = digits (m div 10)"
      and b: "''0123456789'' ! (n mod 10) = ''0123456789'' ! (m mod 10)"
      by simp_all
    have "n div 10 = m div 10" using "1.IH" [OF False a] .
    moreover have "n mod 10 = m mod 10" by (rule digit_char_inj [OF _ _ b]) simp_all
    ultimately show ?thesis by (metis div_mult_mod_eq)
  qed
qed

lemma digits_no_sign: "CHR ''-'' \<notin> set (digits n)" and digits_no_space: "CHR '' '' \<notin> set (digits n)"
  using digits_chars [of n] by auto

lemma Itoa_inject: "Itoa a = Itoa b \<Longrightarrow> a = b"
proof -
  assume e: "Itoa a = Itoa b"
  have hd_digit: "hd (digits n) \<noteq> CHR ''-''" for n
    using digits_no_sign [of n] digits_nonempty [of n] by (metis hd_in_set)
  show ?thesis
  proof (cases "a < 0"; cases "b < 0")
    assume "a < 0" "b < 0"
    then have "nat (- a) = nat (- b)" using e digits_inject by (simp add: Itoa_def)
    then show ?thesis using \<open>a < 0\<close> \<open>b < 0\<close> by simp
  next
    assume "a < 0" "\<not> b < 0"
    then have "CHR ''-'' # digits (nat (- a)) = digits (nat b)" using e by (simp add: Itoa_def)
    then have "hd (digits (nat b)) = CHR ''-''" by (metis list.sel(1))
    then show ?thesis using hd_digit by blast
  next
    assume "\<not> a < 0" "b < 0"
    then have "digits (nat a) = CHR ''-'' # digits (nat (- b))" using e by (simp add: Itoa_def)
    then have "hd (digits (nat a)) = CHR ''-''" by simp
    then show ?thesis using hd_digit by blast
  next
    assume "\<not> a < 0" "\<not> b < 0"
    then have "nat a = nat b" using e digits_inject by (simp add: Itoa_def)
    then show ?thesis using \<open>\<not> a < 0\<close> \<open>\<not> b < 0\<close> by simp
  qed
qed

lemma Itoa_no_space: "CHR '' '' \<notin> set (Itoa a)"
  using digits_no_space by (simp add: Itoa_def)

lemma split_at_char:
  assumes "c \<notin> set xs" and "c \<notin> set ys" and "xs @ c # r = ys @ c # r'"
  shows "xs = ys \<and> r = r'"
  using assms
proof (induction xs arbitrary: ys)
  case Nil
  then show ?case by (cases ys) auto
next
  case (Cons x xs)
  then show ?case by (cases ys) auto
qed

lemma edge_id_inject: "edge_id a b = edge_id c d \<Longrightarrow> a = c \<and> b = d"
proof -
  assume "edge_id a b = edge_id c d"
  then have "Itoa a @ CHR '' '' # (''-> '' @ Itoa b) = Itoa c @ CHR '' '' # (''-> '' @ Itoa d)"
    by (simp add: edge_id_def)
  then have "Itoa a = Itoa c \<and> ''-> '' @ Itoa b = ''-> '' @ Itoa d"
    by (rule split_at_char [OF Itoa_no_space Itoa_no_space])
  then show ?thesis using Itoa_inject by auto
qed

section \<open>One edge for a pair of processes\<close>

lemma edges_ok_empty: "edges_ok []"
  by (simp add: edges_ok_def has_key_def)

lemma edges_ok_put:
  assumes "edges_ok em" and "e_id e = edge_id a b"
    and "a < 0 \<or> MaxInt32 \<le> a \<or> b < 0 \<or> MaxInt32 \<le> b \<or> \<not> has_key em (edge_id b a)"
  shows "edges_ok (AList.update (edge_id a b) e em)"
  unfolding edges_ok_def
proof (intro conjI allI impI)
  show "distinct (map fst (AList.update (edge_id a b) e em))"
    using assms(1) by (simp add: edges_ok_def distinct_update)
  show "e_id x = k" if "map_of (AList.update (edge_id a b) e em) k = Some x" for k x
    using that assms(1,2) by (auto simp: edges_ok_def update_conv' split: if_splits)
  show "\<not> (has_key (AList.update (edge_id a b) e em) (edge_id c d) \<and>
            has_key (AList.update (edge_id a b) e em) (edge_id d c))"
    if h: "0 \<le> c \<and> c < MaxInt32 \<and> 0 \<le> d \<and> d < MaxInt32 \<and> c \<noteq> d" for c d
  proof
    assume both: "has_key (AList.update (edge_id a b) e em) (edge_id c d) \<and>
            has_key (AList.update (edge_id a b) e em) (edge_id d c)"
    have old: "\<not> (has_key em (edge_id c d) \<and> has_key em (edge_id d c))"
      using assms(1) h unfolding edges_ok_def by blast
    have "edge_id c d \<noteq> edge_id d c" using h edge_id_inject by blast
    then consider (1) "edge_id c d = edge_id a b" "has_key em (edge_id d c)"
      | (2) "edge_id d c = edge_id a b" "has_key em (edge_id c d)"
      using both old by (auto simp: has_key_update)
    then show False
    proof cases
      case 1
      then have "c = a" "d = b" using edge_id_inject by blast+
      then show False using 1(2) assms(3) h by auto
    next
      case 2
      then have "d = a" "c = b" using edge_id_inject by blast+
      then show False using 2(2) assms(3) h by auto
    qed
  qed
qed

lemma has_key_append_label: "has_key (append_label k s em) k' = has_key em k'"
  by (auto simp: append_label_def has_key_def update_conv' split: option.splits)

lemma keys_append_label: "map fst (append_label k s em) = map fst em"
proof (cases "map_of em k")
  case None
  then show ?thesis by (simp add: append_label_def)
next
  case (Some e)
  then have "k \<in> set (map fst em)" by (metis has_key_def has_key_set option.simps(3))
  then show ?thesis using Some by (simp add: append_label_def update_keys)
qed

lemma edges_ok_append_label:
  assumes "edges_ok em"
  shows "edges_ok (append_label k s em)"
  unfolding edges_ok_def
proof (intro conjI allI impI)
  show "distinct (map fst (append_label k s em))"
    using assms by (simp add: keys_append_label edges_ok_def)
  show "e_id x = k'" if "map_of (append_label k s em) k' = Some x" for k' x
    using that assms
    by (auto simp: append_label_def edges_ok_def update_conv' split: option.splits if_splits)
  show "\<not> (has_key (append_label k s em) (edge_id c d) \<and>
            has_key (append_label k s em) (edge_id d c))"
    if "0 \<le> c \<and> c < MaxInt32 \<and> 0 \<le> d \<and> d < MaxInt32 \<and> c \<noteq> d" for c d
    using that assms unfolding has_key_append_label edges_ok_def by blast
qed

lemma edges_ok_merge:
  assumes "edges_ok em"
  shows "edges_ok (merge_edge conn sn peer em)"
proof -
  let ?id = "edge_id (Pid' (Self' conn)) (Pid' (Peer' conn))"
  let ?di = "edge_id (Pid' (Peer' conn)) (Pid' (Self' conn))"
  show ?thesis
  proof (cases "has_key em ?id \<or> has_key em ?di")
    case True
    then show ?thesis using assms by (auto simp: merge_edge_def Let_def edges_ok_append_label)
  next
    case False
    then show ?thesis
      using edges_ok_put [OF assms, where a = "Pid' (Self' conn)" and b = "Pid' (Peer' conn)"]
      by (simp add: merge_edge_def Let_def)
  qed
qed

lemma bindE_Inr: "bindE r f = Inr y \<Longrightarrow> \<exists>x. r = Inr x \<and> f x = Inr y"
  by (cases r) (simp_all add: bindE_def)

lemma host_branch_ok:
  assumes "host_branch env tb conn st = Inr st'" and "edges_ok (snd st)"
    and "Pid' (Peer' conn) < 0"
  shows "edges_ok (snd st')"
  using assms unfolding host_branch_def Let_def
  by (auto dest!: bindE_Inr intro!: edges_ok_put)

lemma data_branch_ok:
  assumes "data_branch env tb conn st = Inr st'" and "edges_ok (snd st)"
    and "MaxInt32 \<le> Pid' (Peer' conn)"
  shows "edges_ok (snd st')"
  using assms unfolding data_branch_def Let_def
  by (auto dest!: bindE_Inr intro!: edges_ok_put)

lemma process_branch_ok:
  assumes "process_branch env tb conn st = Inr st'" and "edges_ok (snd st)"
  shows "edges_ok (snd st')"
  using assms unfolding process_branch_def Let_def
  by (auto dest!: bindE_Inr intro!: edges_ok_merge)

lemma graph_step_ok:
  assumes "graph_step env tb pid conn st = Inr st'" and "edges_ok (snd st)"
  shows "edges_ok (snd st')"
proof (cases "Pid' (Self' conn) = 0 \<or> Pid' (Peer' conn) = 0 \<or>
         Pid' (Self' conn) = 1 \<or> Pid' (Peer' conn) = 1 \<or>
         Pid' (Self' conn) = Pid' (Peer' conn) \<or>
         pid = 0 \<and> Pid' (Peer' conn) \<ge> MaxInt32")
  case True
  then have "st' = st" using assms(1) unfolding graph_step_def by (simp only: if_True) simp
  then show ?thesis using assms(2) by simp
next
  case False
  then obtain row where r:
    "(let st1 = (AList.update (Pid' (Self' conn)) row (fst st), snd st) in
           if Pid' (Peer' conn) < 0 then host_branch env tb conn st1
           else if Pid' (Peer' conn) \<ge> MaxInt32 then data_branch env tb conn st1
           else process_branch env tb conn st1) = Inr st'"
    using assms(1) unfolding graph_step_def by (simp only: if_False) (auto dest!: bindE_Inr)
  let ?st1 = "(AList.update (Pid' (Self' conn)) row (fst st), snd st)"
  have ok1: "edges_ok (snd ?st1)" using assms(2) by simp
  consider (h) "Pid' (Peer' conn) < 0" | (d) "\<not> Pid' (Peer' conn) < 0" "MaxInt32 \<le> Pid' (Peer' conn)"
    | (p) "\<not> Pid' (Peer' conn) < 0" "\<not> MaxInt32 \<le> Pid' (Peer' conn)"
    by blast
  then show ?thesis
  proof cases
    case h
    then have "host_branch env tb conn ?st1 = Inr st'" using r by (simp add: Let_def)
    then show ?thesis using ok1 h by (rule host_branch_ok)
  next
    case d
    then have "data_branch env tb conn ?st1 = Inr st'" using r by (simp add: Let_def)
    then show ?thesis using ok1 d(2) by (rule data_branch_ok)
  next
    case p
    then have "process_branch env tb conn ?st1 = Inr st'" using r by (simp add: Let_def)
    then show ?thesis using ok1 by (rule process_branch_ok)
  qed
qed

lemma assemble_ok:
  assumes "assemble env tb ps pid = Inr st"
  shows "edges_ok (snd st)"
proof -
  have "foldE (graph_proc env tb pid) ps ([], []) = Inr st"
    using assms by (simp add: assemble_def)
  then show ?thesis
  proof (rule foldE_inv)
    show "edges_ok (snd ([], []))" by (simp add: edges_ok_empty)
    fix y a b assume a: "edges_ok (snd a)" and s: "graph_proc env tb pid y a = Inr b"
    then obtain q :: process' where "foldE (graph_step env tb pid) (Connections' q) a = Inr b"
      by (cases y) (simp_all add: graph_proc_def)
    then show "edges_ok (snd b)" using a
    proof (rule foldE_inv)
      fix z u v assume "edges_ok (snd u)" "graph_step env tb pid z u = Inr v"
      then show "edges_ok (snd v)" using graph_step_ok by blast
    qed
  qed
qed

lemma distinct_map_insort_key:
  "distinct (map g (insort_key f x xs)) = (g x \<notin> g ` set xs \<and> distinct (map g xs))"
  by (induction xs) (auto simp: set_insort_key)

lemma distinct_map_sort_key: "distinct (map g (sort_key f xs)) = distinct (map g xs)"
  by (induction xs) (simp_all add: sort_key_simps distinct_map_insort_key)

lemma edges_ok_ids:
  assumes "edges_ok em"
  shows "map e_id (map snd em) = map fst em"
proof -
  have "e_id (snd x) = fst x" if "x \<in> set em" for x
  proof -
    have "map_of em (fst x) = Some (snd x)"
      using assms that unfolding edges_ok_def by (cases x) simp
    then show ?thesis using assms unfolding edges_ok_def by blast
  qed
  then show ?thesis by simp
qed

lemma foldE_prefix:
  assumes "foldE f xs s = Inr s'" and "I pre s"
    and "\<And>qs x a b. I qs a \<Longrightarrow> f x a = Inr b \<Longrightarrow> I (qs @ [x]) b"
  shows "I (pre @ xs) s'"
  using assms(1,2)
proof (induction xs arbitrary: s pre)
  case Nil
  then show ?case by simp
next
  case (Cons x xs)
  from Cons.prems(1) obtain t where t: "f x s = Inr t" "foldE f xs t = Inr s'"
    by (auto split: sum.splits)
  have "I (pre @ [x]) t" using assms(3) [OF Cons.prems(2) t(1)] .
  then have "I ((pre @ [x]) @ xs) s'" using Cons.IH [OF t(2)] by blast
  then show ?case by simp
qed

lemma graph_step_skipped:
  assumes "skipped pid conn"
  shows "graph_step env tb pid conn st = Inr st"
proof -
  have "Pid' (Self' conn) = 0 \<or> Pid' (Peer' conn) = 0 \<or>
         Pid' (Self' conn) = 1 \<or> Pid' (Peer' conn) = 1 \<or>
         Pid' (Self' conn) = Pid' (Peer' conn) \<or>
         pid = 0 \<and> Pid' (Peer' conn) \<ge> MaxInt32"
    using assms unfolding skipped_def .
  then show ?thesis unfolding graph_step_def by (simp only: if_True)
qed

lemma graph_step_branch:
  assumes "graph_step env tb pid conn st = Inr st'" and "\<not> skipped pid conn"
  shows "\<exists>row.
     (if Pid' (Peer' conn) < 0
        then host_branch env tb conn (AList.update (Pid' (Self' conn)) row (fst st), snd st)
      else if Pid' (Peer' conn) \<ge> MaxInt32
        then data_branch env tb conn (AList.update (Pid' (Self' conn)) row (fst st), snd st)
      else process_branch env tb conn (AList.update (Pid' (Self' conn)) row (fst st), snd st))
     = Inr st'"
proof -
  have "\<not> (Pid' (Self' conn) = 0 \<or> Pid' (Peer' conn) = 0 \<or>
         Pid' (Self' conn) = 1 \<or> Pid' (Peer' conn) = 1 \<or>
         Pid' (Self' conn) = Pid' (Peer' conn) \<or>
         pid = 0 \<and> Pid' (Peer' conn) \<ge> MaxInt32)"
    using assms(2) unfolding skipped_def .
  then show ?thesis
    using assms(1) unfolding graph_step_def
    by (simp only: if_False) (auto dest!: bindE_Inr simp: Let_def)
qed

lemma map_of_append_label:
  "map_of (append_label k s em) k' =
     (if k' = k then map_option (\<lambda>e. e\<lparr>e_label := e_label e @ s\<rparr>) (map_of em k)
      else map_of em k')"
  by (auto simp: append_label_def update_conv' split: option.splits)

lemma map_of_merge_other:
  assumes "k \<noteq> edge_id (Pid' (Self' conn)) (Pid' (Peer' conn))"
    and "k \<noteq> edge_id (Pid' (Peer' conn)) (Pid' (Self' conn))"
  shows "map_of (merge_edge conn sn peer em) k = map_of em k"
  using assms by (simp add: merge_edge_def Let_def map_of_append_label update_conv')

lemma host_branch_other:
  assumes "host_branch env tb conn st = Inr st'"
    and "k \<noteq> edge_id (Pid' (Peer' conn)) (Pid' (Self' conn))"
  shows "map_of (snd st') k = map_of (snd st) k"
  using assms unfolding host_branch_def Let_def
  by (auto dest!: bindE_Inr simp: update_conv')

lemma data_branch_other:
  assumes "data_branch env tb conn st = Inr st'"
    and "k \<noteq> edge_id (Pid' (Self' conn)) (Pid' (Peer' conn))"
  shows "map_of (snd st') k = map_of (snd st) k"
  using assms unfolding data_branch_def Let_def
  by (auto dest!: bindE_Inr simp: update_conv')

lemma process_branch_edges:
  assumes "process_branch env tb conn st = Inr st'"
  shows "snd st' = merge_edge conn (sname tb (Pid' (Self' conn))) (sname tb (Pid' (Peer' conn))) (snd st)"
  using assms unfolding process_branch_def Let_def
  by (auto dest!: bindE_Inr simp: sname_def)

lemma graph_step_other:
  assumes "graph_step env tb pid conn st = Inr st'"
    and "k \<noteq> edge_id (Pid' (Self' conn)) (Pid' (Peer' conn))"
    and "k \<noteq> edge_id (Pid' (Peer' conn)) (Pid' (Self' conn))"
  shows "map_of (snd st') k = map_of (snd st) k"
proof (cases "skipped pid conn")
  case True
  then show ?thesis using assms(1) by (simp add: graph_step_skipped)
next
  case False
  from graph_step_branch [OF assms(1) False] obtain row where r:
    "(if Pid' (Peer' conn) < 0
        then host_branch env tb conn (AList.update (Pid' (Self' conn)) row (fst st), snd st)
      else if Pid' (Peer' conn) \<ge> MaxInt32
        then data_branch env tb conn (AList.update (Pid' (Self' conn)) row (fst st), snd st)
      else process_branch env tb conn (AList.update (Pid' (Self' conn)) row (fst st), snd st))
     = Inr st'"
    by blast
  let ?st1 = "(AList.update (Pid' (Self' conn)) row (fst st), snd st)"
  consider (h) "Pid' (Peer' conn) < 0"
    | (d) "\<not> Pid' (Peer' conn) < 0" "MaxInt32 \<le> Pid' (Peer' conn)"
    | (p) "\<not> Pid' (Peer' conn) < 0" "\<not> MaxInt32 \<le> Pid' (Peer' conn)"
    by blast
  then show ?thesis
  proof cases
    case h
    then have "host_branch env tb conn ?st1 = Inr st'" using r by simp
    from host_branch_other [OF this assms(3)] show ?thesis by simp
  next
    case d
    then have "data_branch env tb conn ?st1 = Inr st'" using r by simp
    from data_branch_other [OF this assms(2)] show ?thesis by simp
  next
    case p
    then have "process_branch env tb conn ?st1 = Inr st'" using r by simp
    from process_branch_edges [OF this] show ?thesis
      using assms(2,3) by (simp add: map_of_merge_other)
  qed
qed

lemma graph_step_joined:
  assumes "graph_step env tb pid conn st = Inr st'" and "\<not> skipped pid conn"
    and "0 \<le> Pid' (Peer' conn)" and "Pid' (Peer' conn) < MaxInt32"
  shows "snd st' = merge_edge conn (sname tb (Pid' (Self' conn))) (sname tb (Pid' (Peer' conn))) (snd st)"
proof -
  from graph_step_branch [OF assms(1,2)] obtain row where
    "process_branch env tb conn (AList.update (Pid' (Self' conn)) row (fst st), snd st) = Inr st'"
    using assms(3,4) by auto
  from process_branch_edges [OF this] show ?thesis by simp
qed

lemma merged_links:
  assumes "links pid P Q cs' = links pid P Q cs"
  shows "merged tb pid P Q cs' em = merged tb pid P Q cs em"
  using assms by (simp add: merged_def)

lemma merged_cong:
  assumes "map_of em' (edge_id P Q) = map_of em (edge_id P Q)"
    and "map_of em' (edge_id Q P) = map_of em (edge_id Q P)"
  shows "merged tb pid P Q cs em' = merged tb pid P Q cs em"
proof (cases "links pid P Q cs")
  case Nil
  then show ?thesis using assms by (simp add: merged_def has_key_def)
next
  case (Cons c rest)
  then have "c \<in> set (links pid P Q cs)" by simp
  then have "joins P Q c" by (simp add: links_def)
  then consider "Pid' (Self' c) = P \<and> Pid' (Peer' c) = Q"
    | "Pid' (Self' c) = Q \<and> Pid' (Peer' c) = P"
    unfolding joins_def by blast
  then show ?thesis using assms Cons by cases (simp_all add: merged_def has_key_def)
qed

lemma links_snoc:
  "links pid P Q (cs @ [c]) =
     (if joins P Q c \<and> \<not> skipped pid c then links pid P Q cs @ [c] else links pid P Q cs)"
  by (simp add: links_def)

lemma pair_label_snoc: "pair_label tb S T (cs @ [c]) = pair_label tb S T cs @ line_of S c"
  by (simp add: pair_label_def)

lemma graph_step_merged:
  assumes s: "graph_step env tb pid conn st = Inr st'"
    and m: "merged tb pid P Q cs (snd st)"
    and r: "0 \<le> P" "P < MaxInt32" "0 \<le> Q" "Q < MaxInt32"
  shows "merged tb pid P Q (cs @ [conn]) (snd st')"
proof (cases "joins P Q conn \<and> \<not> skipped pid conn")
  case False
  have keep: "map_of (snd st') (edge_id a b) = map_of (snd st) (edge_id a b)"
    if ab: "a = P \<and> b = Q \<or> a = Q \<and> b = P" for a b
  proof (cases "skipped pid conn")
    case True
    then show ?thesis using s by (simp add: graph_step_skipped)
  next
    case nskip: False
    then have nj: "\<not> joins P Q conn" using False by simp
    have "edge_id a b \<noteq> edge_id (Pid' (Self' conn)) (Pid' (Peer' conn))"
      using nj ab edge_id_inject [of a b "Pid' (Self' conn)" "Pid' (Peer' conn)"]
      unfolding joins_def by blast
    moreover have "edge_id a b \<noteq> edge_id (Pid' (Peer' conn)) (Pid' (Self' conn))"
      using nj ab edge_id_inject [of a b "Pid' (Peer' conn)" "Pid' (Self' conn)"]
      unfolding joins_def by blast
    ultimately show ?thesis by (rule graph_step_other [OF s])
  qed
  have "links pid P Q (cs @ [conn]) = links pid P Q cs"
    using False by (simp add: links_snoc)
  then have "merged tb pid P Q (cs @ [conn]) (snd st') = merged tb pid P Q cs (snd st')"
    by (rule merged_links)
  also have "\<dots> = merged tb pid P Q cs (snd st)"
    by (rule merged_cong) (simp_all add: keep)
  finally show ?thesis using m by simp
next
  case True
  let ?s = "Pid' (Self' conn)" and ?p = "Pid' (Peer' conn)"
  let ?em = "snd st"
  have j: "joins P Q conn" and ns: "\<not> skipped pid conn" using True by simp_all
  have ne: "?s \<noteq> ?p" using ns by (simp add: skipped_def)
  have "0 \<le> ?p" "?p < MaxInt32" using j r unfolding joins_def by auto
  then have em': "snd st' = merge_edge conn (sname tb ?s) (sname tb ?p) ?em"
    by (rule graph_step_joined [OF s ns])
  have l: "links pid P Q (cs @ [conn]) = links pid P Q cs @ [conn]"
    using True by (simp add: links_snoc)
  have idne: "edge_id ?p ?s \<noteq> edge_id ?s ?p"
    using ne edge_id_inject [of ?p ?s ?s ?p] by blast
  show ?thesis
  proof (cases "links pid P Q cs")
    case Nil
    have "\<not> has_key ?em (edge_id P Q)" "\<not> has_key ?em (edge_id Q P)"
      using m Nil by (simp_all add: merged_def)
    then have no: "\<not> has_key ?em (edge_id ?s ?p)" "\<not> has_key ?em (edge_id ?p ?s)"
      using j unfolding joins_def by auto
    have upd: "snd st' =
        AList.update (edge_id ?s ?p)
          \<lparr>e_id = edge_id ?s ?p, e_source = ?s, e_target = ?p,
           e_col4 = sname tb ?s, e_col5 = sname tb ?p,
           e_label = sname tb ?s @ arrow @ sname tb ?p @
             CHR 0x0A # transport (Type' conn) (Name' (Self' conn)) (Name' (Peer' conn))\<rparr>
          ?em"
      unfolding em' using no by (simp add: merge_edge_def Let_def)
    have a: "\<not> has_key (snd st') (edge_id ?p ?s)"
      unfolding upd using no(2) idne by (simp add: has_key_update)
    have b: "map_of (snd st') (edge_id ?s ?p) =
        Some \<lparr>e_id = edge_id ?s ?p, e_source = ?s, e_target = ?p,
           e_col4 = sname tb ?s, e_col5 = sname tb ?p,
           e_label = sname tb ?s @ arrow @ sname tb ?p @
             CHR 0x0A # transport (Type' conn) (Name' (Self' conn)) (Name' (Peer' conn))\<rparr>"
      unfolding upd by (simp add: update_conv')
    show ?thesis
      unfolding merged_def l Nil using a b by (simp add: pair_label_def line_of_def)
  next
    case (Cons c0 rest)
    let ?S = "Pid' (Self' c0)" and ?T = "Pid' (Peer' c0)"
    have "c0 \<in> set (links pid P Q cs)" using Cons by simp
    then have j0: "joins P Q c0" and ns0: "\<not> skipped pid c0" by (simp_all add: links_def)
    have ne0: "?S \<noteq> ?T" using ns0 by (simp add: skipped_def)
    from m Cons obtain e where
      nk: "\<not> has_key ?em (edge_id ?T ?S)"
      and e: "map_of ?em (edge_id ?S ?T) = Some e"
      and src: "e_source e = ?S" and tgt: "e_target e = ?T"
      and lab: "e_label e = pair_label tb ?S ?T (c0 # rest)"
      by (auto simp: merged_def split: option.splits)
    have hk: "has_key ?em (edge_id ?S ?T)" using e by (simp add: has_key_def)
    have idne0: "edge_id ?T ?S \<noteq> edge_id ?S ?T"
      using ne0 edge_id_inject [of ?T ?S ?S ?T] by blast
    consider (same) "?s = ?S" "?p = ?T" | (rev) "?s = ?T" "?p = ?S"
      using j j0 ne0 unfolding joins_def by auto
    then have res: "\<not> has_key (snd st') (edge_id ?T ?S) \<and>
      map_of (snd st') (edge_id ?S ?T) = Some (e\<lparr>e_label := e_label e @ line_of ?S conn\<rparr>)"
    proof cases
      case same
      have "snd st' = append_label (edge_id ?S ?T)
          (CHR 0x0A # transport (Type' conn) (Name' (Self' conn)) (Name' (Peer' conn))) ?em"
        unfolding em' using hk same by (simp add: merge_edge_def Let_def)
      then show ?thesis
        using nk e same by (simp add: has_key_append_label map_of_append_label line_of_def)
    next
      case rev
      have "snd st' = append_label (edge_id ?S ?T)
          (CHR 0x0A # transport (Type' conn) (Name' (Peer' conn)) (Name' (Self' conn))) ?em"
        unfolding em' using hk nk rev by (simp add: merge_edge_def Let_def)
      then show ?thesis
        using nk e rev ne0 by (simp add: has_key_append_label map_of_append_label line_of_def)
    qed
    have l': "links pid P Q (cs @ [conn]) = c0 # (rest @ [conn])" using l Cons by simp
    have "pair_label tb ?S ?T (c0 # rest @ [conn]) = pair_label tb ?S ?T (c0 # rest) @ line_of ?S conn"
      using pair_label_snoc [of tb ?S ?T "c0 # rest" conn] by simp
    then show ?thesis
      unfolding merged_def l' using res src tgt lab by simp
  qed
qed

lemma visited_snoc:
  "visited (ps @ [Some q]) = visited ps @ Connections' q"
  by (simp add: visited_def)

lemma graph_proc_merged:
  assumes s: "graph_proc env tb pid y a = Inr b"
    and m: "merged tb pid P Q (visited pre) (snd a)"
    and r: "0 \<le> P" "P < MaxInt32" "0 \<le> Q" "Q < MaxInt32"
  shows "merged tb pid P Q (visited (pre @ [y])) (snd b)"
proof -
  from s obtain q :: process' where y: "y = Some q"
    and f: "foldE (graph_step env tb pid) (Connections' q) a = Inr b"
    by (cases y) (simp_all add: graph_proc_def)
  have "merged tb pid P Q (visited pre @ Connections' q) (snd b)"
    using f m
  proof (rule foldE_prefix [where I = "\<lambda>cs st. merged tb pid P Q cs (snd st)"])
    fix qs x u v
    assume "merged tb pid P Q qs (snd u)" and "graph_step env tb pid x u = Inr v"
    then show "merged tb pid P Q (qs @ [x]) (snd v)"
      using graph_step_merged r by blast
  qed
  then show ?thesis by (simp add: y visited_snoc)
qed

lemma assemble_merged:
  assumes s: "assemble env tb ps pid = Inr st"
    and r: "0 \<le> P" "P < MaxInt32" "0 \<le> Q" "Q < MaxInt32"
  shows "merged tb pid P Q (visited ps) (snd st)"
proof -
  have f: "foldE (graph_proc env tb pid) ps ([], []) = Inr st"
    using s by (simp add: assemble_def)
  have z: "merged tb pid P Q (visited []) (snd (([], []) :: nodemap \<times> edgemap))"
    by (simp add: merged_def visited_def links_def has_key_def)
  have "merged tb pid P Q (visited ([] @ ps)) (snd st)"
    using f z
  proof (rule foldE_prefix [where I = "\<lambda>qs st. merged tb pid P Q (visited qs) (snd st)"])
    fix qs x u v
    assume "merged tb pid P Q (visited qs) (snd u)" and "graph_proc env tb pid x u = Inr v"
    then show "merged tb pid P Q (visited (qs @ [x])) (snd v)"
      using graph_proc_merged r by blast
  qed
  then show ?thesis by simp
qed

lemma Nodegraph_cases:
  assumes "Nodegraph env otb opt tb pid = Some r"
  shows "(\<exists>e. r = \<lparr>Frames = None, Error = Some e\<rparr>) \<or>
     (\<exists>pt st. selected env otb tb (reset_pid tb pid) = Some (Inr pt) \<and>
        assemble env tb (entries opt pt) (reset_pid tb pid) = Inr st \<and>
        r = \<lparr>Frames = Some (sort_key n_id (map snd (fst st)),
                            sort_key (\<lambda>e. (e_source e, e_target e)) (map snd (snd st))),
             Error = None\<rparr>)"
  using assms unfolding Nodegraph_def Let_def
  by (auto split: option.splits sum.splits)

lemma filter_key:
  assumes "distinct (map fst em)" and "map_of em k = Some e"
  shows "filter (\<lambda>x. fst x = k) em = [(k, e)]"
  using assms
proof (induction em)
  case Nil
  then show ?case by simp
next
  case (Cons x em)
  show ?case
  proof (cases "fst x = k")
    case True
    then have x: "x = (k, e)" using Cons.prems(2) by (cases x) simp
    have "k \<notin> fst ` set em" using Cons.prems(1) True by simp
    then have "filter (\<lambda>x. fst x = k) em = []" by (auto simp: filter_empty_conv)
    then show ?thesis using x by simp
  next
    case False
    then have "map_of em k = Some e" using Cons.prems(2) by (cases x) auto
    then show ?thesis using Cons.IH Cons.prems(1) False by simp
  qed
qed

lemma edges_row:
  assumes ok: "edges_ok em" and e: "map_of em k = Some e"
  shows "filter (\<lambda>x. e_id x = k) (sort_key f (map snd em)) = [e]"
proof -
  have own: "e_id (snd x) = fst x" if "x \<in> set em" for x
  proof -
    have "map_of em (fst x) = Some (snd x)"
      using ok that unfolding edges_ok_def by (cases x) simp
    then show ?thesis using ok unfolding edges_ok_def by blast
  qed
  have "filter (\<lambda>x. e_id x = k) (map snd em) = map snd (filter (\<lambda>x. e_id (snd x) = k) em)"
    by (simp add: filter_map comp_def)
  also have "filter (\<lambda>x. e_id (snd x) = k) em = filter (\<lambda>x. fst x = k) em"
    by (rule filter_cong) (simp_all add: own)
  also have "\<dots> = [(k, e)]"
    using ok e unfolding edges_ok_def by (intro filter_key) simp_all
  finally have "filter (\<lambda>x. e_id x = k) (map snd em) = [e]" by simp
  then show ?thesis by (simp add: filter_sort)
qed

lemma edge_ids_sorted:
  assumes "edges_ok em"
  shows "set (map e_id (sort_key f (map snd em))) = set (map fst em)"
    and "distinct (map e_id (sort_key f (map snd em)))"
proof -
  have "set (map e_id (sort_key f (map snd em))) = set (map e_id (map snd em))"
    by (simp add: image_image)
  then show "set (map e_id (sort_key f (map snd em))) = set (map fst em)"
    using edges_ok_ids [OF assms] by simp
  show "distinct (map e_id (sort_key f (map snd em)))"
    unfolding distinct_map_sort_key edges_ok_ids [OF assms]
    using assms by (simp add: edges_ok_def)
qed

lemma edge_ids_Nodegraph:
  assumes "Nodegraph env otb opt tb pid = Some r"
  shows "edge_ids r = [] \<or>
   (\<exists>pt st. selected env otb tb (reset_pid tb pid) = Some (Inr pt) \<and>
      assemble env tb (entries opt pt) (reset_pid tb pid) = Inr st \<and>
      set (edge_ids r) = set (map fst (snd st)) \<and> distinct (edge_ids r))"
  using Nodegraph_cases [OF assms]
proof (elim disjE exE conjE)
  fix e assume "r = \<lparr>Frames = None, Error = Some e\<rparr>"
  then show ?thesis by (simp add: edge_ids_def)
next
  fix pt st
  assume sel: "selected env otb tb (reset_pid tb pid) = Some (Inr pt)"
    and asm: "assemble env tb (entries opt pt) (reset_pid tb pid) = Inr st"
    and r: "r = \<lparr>Frames = Some (sort_key n_id (map snd (fst st)),
                            sort_key (\<lambda>e. (e_source e, e_target e)) (map snd (snd st))),
             Error = None\<rparr>"
  have ok: "edges_ok (snd st)" by (rule assemble_ok [OF asm])
  have ids: "edge_ids r = map e_id (sort_key (\<lambda>e. (e_source e, e_target e)) (map snd (snd st)))"
    using r by (simp add: edge_ids_def)
  have "set (edge_ids r) = set (map fst (snd st))" "distinct (edge_ids r)"
    unfolding ids by (rule edge_ids_sorted [OF ok])+
  then show ?thesis using sel asm by blast
qed

lemma Nodegraph_merged:
  assumes n: "Nodegraph env otb opt tb pid = Some r" and ne: "Error r = None"
    and rg: "0 \<le> P" "P < MaxInt32" "0 \<le> Q" "Q < MaxInt32"
  shows "\<exists>em. edges_ok em \<and>
      merged tb (reset_pid tb pid) P Q (roster env otb opt tb pid) em \<and>
      edges r = sort_key (\<lambda>e. (e_source e, e_target e)) (map snd em) \<and>
      set (edge_ids r) = set (map fst em)"
  using Nodegraph_cases [OF n]
proof (elim disjE exE conjE)
  fix e assume "r = \<lparr>Frames = None, Error = Some e\<rparr>"
  then show ?thesis using ne by simp
next
  fix pt st
  assume sel: "selected env otb tb (reset_pid tb pid) = Some (Inr pt)"
    and asm: "assemble env tb (entries opt pt) (reset_pid tb pid) = Inr st"
    and r: "r = \<lparr>Frames = Some (sort_key n_id (map snd (fst st)),
                            sort_key (\<lambda>e. (e_source e, e_target e)) (map snd (snd st))),
             Error = None\<rparr>"
  have ok: "edges_ok (snd st)" by (rule assemble_ok [OF asm])
  have ro: "roster env otb opt tb pid = visited (entries opt pt)"
    using sel by (simp add: roster_def)
  have m: "merged tb (reset_pid tb pid) P Q (roster env otb opt tb pid) (snd st)"
    unfolding ro by (rule assemble_merged [OF asm rg])
  have ed: "edges r = sort_key (\<lambda>e. (e_source e, e_target e)) (map snd (snd st))"
    using r by (simp add: edges_def)
  have "edge_ids r = map e_id (sort_key (\<lambda>e. (e_source e, e_target e)) (map snd (snd st)))"
    using r by (simp add: edge_ids_def)
  then have "set (edge_ids r) = set (map fst (snd st))"
    using edge_ids_sorted(1) [OF ok] by simp
  then show ?thesis using ok m ed by blast
qed

text \<open>
  Claim C9. In a response of \<open>Nodegraph\<close> the edge ids are distinct, and for two different
  process ids (from 0 up to, not including, the sentinel \<open>MaxInt32\<close> of the data nodes) the
  response never carries both the id \<open>P -> Q\<close> and the id \<open>Q -> P\<close>. When the response is
  not an error and the assembly loop has met connections that join two such processes, the
  response carries exactly one edge row for the pair: its id, source and target are those of
  the first such connection, no row has the reversed id, and its label is the two short names
  followed by one line for each of these connections, in the order the loop met them, a
  connection seen from the other side with its two endpoint names exchanged. When the loop
  has met no such connection, the response has no edge for the pair.
\<close>

theorem one_edge_per_pair:
  assumes "Nodegraph env otb opt tb pid = Some r"
  shows "distinct (edge_ids r) \<and>
   (\<forall>P Q. 0 \<le> P \<and> P < MaxInt32 \<and> 0 \<le> Q \<and> Q < MaxInt32 \<and> P \<noteq> Q \<longrightarrow>
      \<not> (edge_id P Q \<in> set (edge_ids r) \<and> edge_id Q P \<in> set (edge_ids r))) \<and>
   (\<forall>P Q c rest.
      0 \<le> P \<and> P < MaxInt32 \<and> 0 \<le> Q \<and> Q < MaxInt32 \<and> Error r = None \<and>
      links (reset_pid tb pid) P Q (roster env otb opt tb pid) = c # rest \<longrightarrow>
        edge_id (Pid' (Peer' c)) (Pid' (Self' c)) \<notin> set (edge_ids r) \<and>
        (\<exists>e. filter (\<lambda>x. e_id x = edge_id (Pid' (Self' c)) (Pid' (Peer' c))) (edges r) = [e] \<and>
             e_source e = Pid' (Self' c) \<and> e_target e = Pid' (Peer' c) \<and>
             e_label e = pair_label tb (Pid' (Self' c)) (Pid' (Peer' c)) (c # rest))) \<and>
   (\<forall>P Q.
      0 \<le> P \<and> P < MaxInt32 \<and> 0 \<le> Q \<and> Q < MaxInt32 \<and> Error r = None \<and>
      links (reset_pid tb pid) P Q (roster env otb opt tb pid) = [] \<longrightarrow>
        edge_id P Q \<notin> set (edge_ids r) \<and> edge_id Q P \<notin> set (edge_ids r))"
proof (intro conjI allI impI)
  show "distinct (edge_ids r)"
    using edge_ids_Nodegraph [OF assms] by auto
next
  fix P Q
  assume h: "0 \<le> P \<and> P < MaxInt32 \<and> 0 \<le> Q \<and> Q < MaxInt32 \<and> P \<noteq> Q"
  show "\<not> (edge_id P Q \<in> set (edge_ids r) \<and> edge_id Q P \<in> set (edge_ids r))"
  proof (cases "edge_ids r = []")
    case True
    then show ?thesis by simp
  next
    case False
    then obtain pt st where st: "assemble env tb (entries opt pt) (reset_pid tb pid) = Inr st"
      and s: "set (edge_ids r) = set (map fst (snd st))"
      using edge_ids_Nodegraph [OF assms] by blast
    have "\<not> (has_key (snd st) (edge_id P Q) \<and> has_key (snd st) (edge_id Q P))"
      using assemble_ok [OF st] h unfolding edges_ok_def by blast
    then show ?thesis unfolding s has_key_set .
  qed
next
  fix P Q c rest
  assume h: "0 \<le> P \<and> P < MaxInt32 \<and> 0 \<le> Q \<and> Q < MaxInt32 \<and> Error r = None \<and>
      links (reset_pid tb pid) P Q (roster env otb opt tb pid) = c # rest"
  then have rg: "0 \<le> P" "P < MaxInt32" "0 \<le> Q" "Q < MaxInt32" and ne: "Error r = None"
    and l: "links (reset_pid tb pid) P Q (roster env otb opt tb pid) = c # rest"
    by simp_all
  from Nodegraph_merged [OF assms ne rg] obtain em where ok: "edges_ok em"
    and m: "merged tb (reset_pid tb pid) P Q (roster env otb opt tb pid) em"
    and ed: "edges r = sort_key (\<lambda>e. (e_source e, e_target e)) (map snd em)"
    and ids: "set (edge_ids r) = set (map fst em)"
    by blast
  from m l obtain e where nk: "\<not> has_key em (edge_id (Pid' (Peer' c)) (Pid' (Self' c)))"
    and e: "map_of em (edge_id (Pid' (Self' c)) (Pid' (Peer' c))) = Some e"
    and p: "e_source e = Pid' (Self' c)" "e_target e = Pid' (Peer' c)"
      "e_label e = pair_label tb (Pid' (Self' c)) (Pid' (Peer' c)) (c # rest)"
    by (auto simp: merged_def split: option.splits)
  show "edge_id (Pid' (Peer' c)) (Pid' (Self' c)) \<notin> set (edge_ids r)"
    using nk unfolding ids has_key_set .
  have "filter (\<lambda>x. e_id x = edge_id (Pid' (Self' c)) (Pid' (Peer' c))) (edges r) = [e]"
    unfolding ed by (rule edges_row [OF ok e])
  then show "\<exists>e. filter (\<lambda>x. e_id x = edge_id (Pid' (Self' c)) (Pid' (Peer' c))) (edges r) = [e] \<and>
             e_source e = Pid' (Self' c) \<and> e_target e = Pid' (Peer' c) \<and>
             e_label e = pair_label tb (Pid' (Self' c)) (Pid' (Peer' c)) (c # rest)"
    using p by blast
next
  fix P Q
  assume h: "0 \<le> P \<and> P < MaxInt32 \<and> 0 \<le> Q \<and> Q < MaxInt32 \<and> Error r = None \<and>
      links (reset_pid tb pid) P Q (roster env otb opt tb pid) = []"
  then have rg: "0 \<le> P" "P < MaxInt32" "0 \<le> Q" "Q < MaxInt32" and ne: "Error r = None"
    and l: "links (reset_pid tb pid) P Q (roster env otb opt tb pid) = []"
    by simp_all
  from Nodegraph_merged [OF assms ne rg] obtain em where
    m: "merged tb (reset_pid tb pid) P Q (roster env otb opt tb pid) em"
    and ids: "set (edge_ids r) = set (map fst em)"
    by blast
  have "\<not> has_key em (edge_id P Q) \<and> \<not> has_key em (edge_id Q P)"
    using m l by (simp add: merged_def)
  then show "edge_id P Q \<notin> set (edge_ids r)" "edge_id Q P \<notin> set (edge_ids r)"
    unfolding ids has_key_set by simp_all
qed

theorem one_edge_per_pair_witness:
  "map_option Error (Nodegraph ex_genv [1, 5, 10, 20] [1, 5, 10, 20] tb_pair 0) = Some None \<and>
   map Type' (links (reset_pid tb_pair 0) 10 20 (roster ex_genv [1, 5, 10, 20] [1, 5, 10, 20] tb_pair 0))
     = [''TCP'', ''unix'', ''TCP''] \<and>
   map_option edge_ids (Nodegraph ex_genv [1, 5, 10, 20] [1, 5, 10, 20] tb_pair 0)
     = Some [''5 -> 10'', ''5 -> 20'', ''10 -> 20''] \<and>
   map_option (\<lambda>r. map e_label (filter (\<lambda>x. e_id x = edge_id 10 20) (edges r)))
       (Nodegraph ex_genv [1, 5, 10, 20] [1, 5, 10, 20] tb_pair 0)
     = Some [''client[10]'' @ arrow @ ''server[20]'' @
             CHR 0x0A # ''TCP:a:1'' @ arrow @ ''b:2'' @
             CHR 0x0A # ''unix:0xa'' @ arrow @ ''0xb'' @
             CHR 0x0A # ''TCP:a:1'' @ arrow @ ''b:2''] \<and>
   map_option (\<lambda>r. edge_id 20 10 \<in> set (edge_ids r))
       (Nodegraph ex_genv [1, 5, 10, 20] [1, 5, 10, 20] tb_pair 0) = Some False \<and>
   map_option (\<lambda>r. edge_id 10 5 \<in> set (edge_ids r))
       (Nodegraph ex_genv [1, 5, 10, 20] [1, 5, 10, 20] tb_pair 0) = Some False \<and>
   links (reset_pid tb_pair 0) 1 5 (roster ex_genv [1, 5, 10, 20] [1, 5, 10, 20] tb_pair 0) = [] \<and>
   map_option (\<lambda>r. edge_id 1 5 \<in> set (edge_ids r) \<or> edge_id 5 1 \<in> set (edge_ids r))
       (Nodegraph ex_genv [1, 5, 10, 20] [1, 5, 10, 20] tb_pair 0) = Some False"
proof -
  let ?c1 = "\<lparr>Type' = ''TCP'', Self' = \<lparr>Name' = ''a:1'', Pid' = 10\<rparr>,
          Peer' = \<lparr>Name' = ''b:2'', Pid' = 20\<rparr>\<rparr>"
  let ?c2 = "\<lparr>Type' = ''unix'', Self' = \<lparr>Name' = ''0xa'', Pid' = 10\<rparr>,
          Peer' = \<lparr>Name' = ''0xb'', Pid' = 20\<rparr>\<rparr>"
  let ?c3 = "\<lparr>Type' = ''TCP'', Self' = \<lparr>Name' = ''b:2'', Pid' = 20\<rparr>,
          Peer' = \<lparr>Name' = ''a:1'', Pid' = 10\<rparr>\<rparr>"
  have "Nodegraph ex_genv [1, 5, 10, 20] [1, 5, 10, 20] tb_pair 0 \<noteq> None" by code_simp
  then obtain r where r: "Nodegraph ex_genv [1, 5, 10, 20] [1, 5, 10, 20] tb_pair 0 = Some r"
    by blast
  have a: "map_option Error (Nodegraph ex_genv [1, 5, 10, 20] [1, 5, 10, 20] tb_pair 0) = Some None"
    by code_simp
  then have ne: "Error r = None" using r by simp
  have l: "links (reset_pid tb_pair 0) 10 20 (roster ex_genv [1, 5, 10, 20] [1, 5, 10, 20] tb_pair 0)
             = ?c1 # [?c2, ?c3]"
    by code_simp
  have b: "map_option edge_ids (Nodegraph ex_genv [1, 5, 10, 20] [1, 5, 10, 20] tb_pair 0)
     = Some [''5 -> 10'', ''5 -> 20'', ''10 -> 20'']"
    by code_simp
  have pl: "pair_label tb_pair 10 20 [?c1, ?c2, ?c3]
     = ''client[10]'' @ arrow @ ''server[20]'' @
             CHR 0x0A # ''TCP:a:1'' @ arrow @ ''b:2'' @
             CHR 0x0A # ''unix:0xa'' @ arrow @ ''0xb'' @
             CHR 0x0A # ''TCP:a:1'' @ arrow @ ''b:2''"
    by code_simp
  have rg: "(0 :: int) \<le> 10 \<and> 10 < MaxInt32 \<and> (0 :: int) \<le> 20 \<and> 20 < MaxInt32"
    by (simp add: MaxInt32_def)
  note t = one_edge_per_pair [OF r]
  from t have "\<forall>P Q c rest.
      0 \<le> P \<and> P < MaxInt32 \<and> 0 \<le> Q \<and> Q < MaxInt32 \<and> Error r = None \<and>
      links (reset_pid tb_pair 0) P Q (roster ex_genv [1, 5, 10, 20] [1, 5, 10, 20] tb_pair 0) = c # rest \<longrightarrow>
        edge_id (Pid' (Peer' c)) (Pid' (Self' c)) \<notin> set (edge_ids r) \<and>
        (\<exists>e. filter (\<lambda>x. e_id x = edge_id (Pid' (Self' c)) (Pid' (Peer' c))) (edges r) = [e] \<and>
             e_source e = Pid' (Self' c) \<and> e_target e = Pid' (Peer' c) \<and>
             e_label e = pair_label tb_pair (Pid' (Self' c)) (Pid' (Peer' c)) (c # rest))"
    by blast
  from this [rule_format, of 10 20 ?c1 "[?c2, ?c3]"] rg ne l
  obtain e where nr: "edge_id 20 10 \<notin> set (edge_ids r)"
    and f: "filter (\<lambda>x. e_id x = edge_id 10 20) (edges r) = [e]"
    and lb: "e_label e = pair_label tb_pair 10 20 [?c1, ?c2, ?c3]"
    by auto
  have c: "map_option (\<lambda>r. map e_label (filter (\<lambda>x. e_id x = edge_id 10 20) (edges r)))
       (Nodegraph ex_genv [1, 5, 10, 20] [1, 5, 10, 20] tb_pair 0)
     = Some [''client[10]'' @ arrow @ ''server[20]'' @
             CHR 0x0A # ''TCP:a:1'' @ arrow @ ''b:2'' @
             CHR 0x0A # ''unix:0xa'' @ arrow @ ''0xb'' @
             CHR 0x0A # ''TCP:a:1'' @ arrow @ ''b:2'']"
    unfolding r using f lb pl by simp
  have d: "map_option (\<lambda>r. edge_id 20 10 \<in> set (edge_ids r))
       (Nodegraph ex_genv [1, 5, 10, 20] [1, 5, 10, 20] tb_pair 0) = Some False"
    unfolding r using nr by simp
  have l': "map Type' (links (reset_pid tb_pair 0) 10 20 (roster ex_genv [1, 5, 10, 20] [1, 5, 10, 20] tb_pair 0))
     = [''TCP'', ''unix'', ''TCP'']"
    unfolding l by simp
  have rg2: "(0 :: int) \<le> 5 \<and> 5 < MaxInt32 \<and> (0 :: int) \<le> 10 \<and> 10 < MaxInt32 \<and> (5 :: int) \<noteq> 10"
    by (simp add: MaxInt32_def)
  have in5: "edge_id 5 10 \<in> set (edge_ids r)" using b r by (simp add: edge_id_def Itoa_def digits.simps)
  from t have "\<forall>P Q. 0 \<le> P \<and> P < MaxInt32 \<and> 0 \<le> Q \<and> Q < MaxInt32 \<and> P \<noteq> Q \<longrightarrow>
      \<not> (edge_id P Q \<in> set (edge_ids r) \<and> edge_id Q P \<in> set (edge_ids r))"
    by blast
  from this [rule_format, of 5 10] rg2 in5 have "edge_id 10 5 \<notin> set (edge_ids r)" by blast
  then have e: "map_option (\<lambda>r. edge_id 10 5 \<in> set (edge_ids r))
       (Nodegraph ex_genv [1, 5, 10, 20] [1, 5, 10, 20] tb_pair 0) = Some False"
    unfolding r by simp
  have l0: "links (reset_pid tb_pair 0) 1 5 (roster ex_genv [1, 5, 10, 20] [1, 5, 10, 20] tb_pair 0) = []"
    by code_simp
  have rg3: "(0 :: int) \<le> 1 \<and> 1 < MaxInt32 \<and> (0 :: int) \<le> 5 \<and> 5 < MaxInt32"
    by (simp add: MaxInt32_def)
  from t have "\<forall>P Q.
      0 \<le> P \<and> P < MaxInt32 \<and> 0 \<le> Q \<and> Q < MaxInt32 \<and> Error r = None \<and>
      links (reset_pid tb_pair 0) P Q (roster ex_genv [1, 5, 10, 20] [1, 5, 10, 20] tb_pair 0) = [] \<longrightarrow>
        edge_id P Q \<notin> set (edge_ids r) \<and> edge_id Q P \<notin> set (edge_ids r)"
    by blast
  from this [rule_format, of 1 5] rg3 ne l0
  have "edge_id 1 5 \<notin> set (edge_ids r) \<and> edge_id 5 1 \<notin> set (edge_ids r)" by blast
  then have f: "map_option (\<lambda>r. edge_id 1 5 \<in> set (edge_ids r) \<or> edge_id 5 1 \<in> set (edge_ids r))
       (Nodegraph ex_genv [1, 5, 10, 20] [1, 5, 10, 20] tb_pair 0) = Some False"
    unfolding r by simp
  show ?thesis using a l' b c d e l0 f by blast
qed

section \<open>Faults at the boundary of a pass\<close>
















end
